theory Spec2Isabelle
  imports Complex_Main "HOL-Library.Log_Nat"
begin

section \<open>Device capability and particle count (Utils, initInteractivePipelineCanvas)\<close>

text \<open>
  In the sections on the device and on the particles, JavaScript numbers are modelled as
  exact rationals (\<open>rat\<close>), integers where the source only ever holds integers; the
  counter animation, whose end depends on rounding, is modelled on doubles.  A property
  of \<open>navigator\<close> that the browser does not provide is \<open>None\<close> (the value
  \<open>undefined\<close>).
\<close>

text \<open>\<open>v || d\<close> on a number-valued property: \<open>undefined\<close> and \<open>0\<close> are falsy.\<close>

definition or_default :: "'a::zero option \<Rightarrow> 'a \<Rightarrow> 'a" where
  "or_default v d = (case v of None \<Rightarrow> d | Some n \<Rightarrow> if n = 0 then d else n)"

text \<open>
  \<^verbatim>\<open>
  isLowEndDevice() {
      const cores = navigator.hardwareConcurrency || 2;
      const memory = navigator.deviceMemory || 4;
      return cores <= 4 || memory <= 4;
  }
  \<close>
\<close>

definition isLowEndDevice :: "nat option \<Rightarrow> rat option \<Rightarrow> bool" where
  "isLowEndDevice hardwareConcurrency deviceMemory =
     (let cores = or_default hardwareConcurrency 2;
          memory = or_default deviceMemory 4
      in cores \<le> 4 \<or> memory \<le> 4)"

text \<open>The inline \<open>Utils.isMobileDevice\<close> of pipeline-main.js: \<open>window.innerWidth < 768\<close>.\<close>

definition isMobileDevice :: "int \<Rightarrow> bool" where
  "isMobileDevice innerWidth = (innerWidth < 768)"

text \<open>\<open>const particleCount = isLowEnd ? 5 : (isMobile ? 10 : 20);\<close>\<close>

definition particleCount :: "bool \<Rightarrow> bool \<Rightarrow> nat" where
  "particleCount isLowEnd isMobile = (if isLowEnd then 5 else if isMobile then 10 else 20)"


section \<open>Particles of the pipeline-node canvas\<close>

record node =
  nx :: rat
  ny :: rat
  nlabel :: string
  ncolor :: string
  nsection :: string

definition nodes :: "node list" where
  "nodes =
    [\<lparr>nx = 15 / 100, ny = 1 / 2, nlabel = ''INPUT'', ncolor = ''#00ff88'', nsection = ''about''\<rparr>,
     \<lparr>nx = 30 / 100, ny = 1 / 2, nlabel = ''PROCESS'', ncolor = ''#00d4ff'', nsection = ''skills''\<rparr>,
     \<lparr>nx = 50 / 100, ny = 1 / 2, nlabel = ''ENRICH'', ncolor = ''#fbbf24'', nsection = ''experience''\<rparr>,
     \<lparr>nx = 70 / 100, ny = 1 / 2, nlabel = ''OUTPUT'', ncolor = ''#ff0080'', nsection = ''projects''\<rparr>,
     \<lparr>nx = 85 / 100, ny = 1 / 2, nlabel = ''MONITOR'', ncolor = ''#a855f7'', nsection = ''contact''\<rparr>]"

text \<open>
  \<open>Array.prototype.indexOf\<close>: the first index holding the value, \<open>-1\<close> when there is
  none.  The five node objects are pairwise different, so identity of objects and
  equality of records coincide on them.
\<close>

fun indexOf :: "'a list \<Rightarrow> 'a \<Rightarrow> int" where
  "indexOf [] v = - 1"
| "indexOf (u # us) v =
     (if u = v then 0 else (let i = indexOf us v in if i < 0 then - 1 else i + 1))"

record particle =
  startNode :: node
  endNode :: node
  progress :: rat
  speed :: rat
  psize :: rat
  opacity :: rat
  pcolor :: string

text \<open>
  The constructor draws \<open>Math.random()\<close> twice, first for the speed and then for the
  size; the two draws are the parameters \<open>r1\<close> and \<open>r2\<close>.
\<close>

definition Particle :: "node \<Rightarrow> node \<Rightarrow> rat \<Rightarrow> rat \<Rightarrow> particle" where
  "Particle s e r1 r2 =
     \<lparr>startNode = s, endNode = e, progress = 0, speed = 2 / 1000 + r1 * (3 / 1000),
      psize = 2 + r2 * 2, opacity = 8 / 10, pcolor = ncolor s\<rparr>"

text \<open>
  \<^verbatim>\<open>
  update() {
      this.progress += this.speed;
      if (this.progress >= 1) {
          this.progress = 0;
          const currentIndex = nodes.indexOf(this.endNode);
          if (currentIndex < nodes.length - 1) {
              this.startNode = this.endNode;
              this.endNode = nodes[currentIndex + 1];
              this.color = this.startNode.color;
          } else {
              this.startNode = nodes[0];
              this.endNode = nodes[1];
              this.color = nodes[0].color;
          }
      }
  }
  \<close>
  In the first branch \<open>currentIndex + 1\<close> lies between \<open>0\<close> and \<open>4\<close>, so the array
  read is in range.
\<close>

definition update :: "particle \<Rightarrow> particle" where
  "update p =
     (let p1 = p\<lparr>progress := progress p + speed p\<rparr> in
      if progress p1 \<ge> 1 then
        (let p2 = p1\<lparr>progress := 0\<rparr>;
             currentIndex = indexOf nodes (endNode p2)
         in if currentIndex < int (length nodes) - 1
            then p2\<lparr>startNode := endNode p2,
                    endNode := nodes ! nat (currentIndex + 1),
                    pcolor := ncolor (endNode p2)\<rparr>
            else p2\<lparr>startNode := nodes ! 0, endNode := nodes ! 1,
                    pcolor := ncolor (nodes ! 0)\<rparr>)
      else p1)"

text \<open>
  \<^verbatim>\<open>
  for (let i = 0; i < particleCount; i++) {
      const startIndex = Math.floor(Math.random() * (nodes.length - 1));
      particles.push(new Particle(nodes[startIndex], nodes[startIndex + 1]));
  }
  \<close>
  \<open>rnd\<close> is the sequence of results of \<open>Math.random()\<close>; the loop consumes three of
  them per particle, starting at position \<open>k\<close>.
\<close>

fun createParticles :: "(nat \<Rightarrow> rat) \<Rightarrow> nat \<Rightarrow> nat \<Rightarrow> particle list" where
  "createParticles rnd k 0 = []"
| "createParticles rnd k (Suc n) =
     (let startIndex = nat \<lfloor>rnd k * (of_nat (length nodes) - 1)\<rfloor>
      in Particle (nodes ! startIndex) (nodes ! (startIndex + 1)) (rnd (k + 1)) (rnd (k + 2))
           # createParticles rnd (k + 3) n)"

text \<open>The end node is the successor of the start node in \<open>nodes\<close>.\<close>

definition adjacent :: "node \<Rightarrow> node \<Rightarrow> bool" where
  "adjacent a b =
     (0 \<le> indexOf nodes a \<and> indexOf nodes a < 4 \<and> b = nodes ! nat (indexOf nodes a + 1))"

definition particle_inv :: "particle \<Rightarrow> bool" where
  "particle_inv p = (0 \<le> progress p \<and> progress p < 1 \<and> adjacent (startNode p) (endNode p))"


text \<open>The invariant together with what keeps it: the speed is never negative.\<close>

definition particle_ok :: "particle \<Rightarrow> bool" where
  "particle_ok p = (particle_inv p \<and> 0 \<le> speed p)"


section \<open>JavaScript numbers as doubles\<close>

text \<open>
  A JavaScript number is an IEEE 754 double.  A finite double is the rational it stands
  for (\<open>Fin\<close>, where \<open>Fin 0\<close> is the positive zero); the other values are the negative
  zero, the two infinities and \<open>NaN\<close>.
\<close>

datatype number = Fin rat | NegZero | PosInf | NegInf | NaN

definition pow2 :: "int \<Rightarrow> rat" where
  "pow2 e = (if 0 \<le> e then 2 ^ nat e else 1 / 2 ^ nat (- e))"

text \<open>The binary exponent of a positive rational: the \<open>e\<close> with \<open>2^e \<le> x < 2^(e+1)\<close>.\<close>

definition exponent :: "rat \<Rightarrow> int" where
  "exponent x =
     (let (a, b) = quotient_of x; e = bitlen a - bitlen b
      in if pow2 e \<le> x then e else e - 1)"

text \<open>The nearest integer, the even one of two that are equally near.\<close>

definition round_even :: "rat \<Rightarrow> int" where
  "round_even q =
     (let f = \<lfloor>q\<rfloor>; d = q - of_int f
      in if d < 1 / 2 then f else if 1 / 2 < d then f + 1 else if even f then f else f + 1)"

text \<open>
  The distance of neighbouring doubles at a positive rational: 53 significant bits, and
  the fixed distance \<open>2^-1074\<close> of the subnormal numbers below \<open>2^-1022\<close>.
\<close>

definition ulp :: "rat \<Rightarrow> rat" where
  "ulp a = pow2 (max (exponent a) (- 1022)) / 2 ^ 52"

definition round_magnitude :: "rat \<Rightarrow> rat" where
  "round_magnitude a = of_int (round_even (a / ulp a)) * ulp a"

text \<open>
  Rounding to the nearest double, ties to even.  A magnitude that rounds to \<open>2^1024\<close>
  or more overflows to an infinity; one that rounds to nothing underflows to a zero of
  its sign.
\<close>

definition fl :: "rat \<Rightarrow> number" where
  "fl x =
     (if x = 0 then Fin 0
      else
        let r = round_magnitude \<bar>x\<bar> in
        if pow2 1024 \<le> r then (if 0 < x then PosInf else NegInf)
        else if r = 0 then (if 0 < x then Fin 0 else NegZero)
        else Fin (if 0 < x then r else - r))"

fun is_negative :: "number \<Rightarrow> bool" where
  "is_negative (Fin x) = (x < 0)"
| "is_negative NegZero = True"
| "is_negative NegInf = True"
| "is_negative PosInf = False"
| "is_negative NaN = False"

fun is_zero :: "number \<Rightarrow> bool" where
  "is_zero (Fin x) = (x = 0)"
| "is_zero NegZero = True"
| "is_zero _ = False"

fun is_infinite :: "number \<Rightarrow> bool" where
  "is_infinite PosInf = True"
| "is_infinite NegInf = True"
| "is_infinite _ = False"

text \<open>The rational that a finite number stands for (both zeros stand for 0).\<close>

fun rational_of :: "number \<Rightarrow> rat" where
  "rational_of (Fin x) = x"
| "rational_of _ = 0"

definition signed_inf :: "bool \<Rightarrow> number" where
  "signed_inf neg = (if neg then NegInf else PosInf)"

definition signed_zero :: "bool \<Rightarrow> number" where
  "signed_zero neg = (if neg then NegZero else Fin 0)"

text \<open>The operators \<open>/\<close>, \<open>+\<close> and \<open>>=\<close> on numbers, and \<open>Math.floor\<close>.\<close>

definition fdiv :: "number \<Rightarrow> number \<Rightarrow> number" where
  "fdiv a b =
     (let neg = (is_negative a \<noteq> is_negative b) in
      if a = NaN \<or> b = NaN then NaN
      else if is_infinite a then (if is_infinite b then NaN else signed_inf neg)
      else if is_infinite b then signed_zero neg
      else if is_zero b then (if is_zero a then NaN else signed_inf neg)
      else if is_zero a then signed_zero neg
      else fl (rational_of a / rational_of b))"

definition fadd :: "number \<Rightarrow> number \<Rightarrow> number" where
  "fadd a b =
     (if a = NaN \<or> b = NaN then NaN
      else if is_infinite a then (if is_infinite b \<and> a \<noteq> b then NaN else a)
      else if is_infinite b then b
      else if a = NegZero then b
      else if b = NegZero then a
      else if rational_of a + rational_of b = 0 then Fin 0
      else fl (rational_of a + rational_of b))"

fun fge :: "number \<Rightarrow> number \<Rightarrow> bool" where
  "fge NaN b = False"
| "fge a NaN = False"
| "fge PosInf b = True"
| "fge a NegInf = True"
| "fge NegInf b = False"
| "fge a PosInf = False"
| "fge a b = (rational_of a \<ge> rational_of b)"

fun ffloor :: "number \<Rightarrow> number" where
  "ffloor (Fin x) = Fin (of_int \<lfloor>x\<rfloor>)"
| "ffloor a = a"


section \<open>Counter animation (animateCounter)\<close>

text \<open>
  \<^verbatim>\<open>
  function animateCounter(element, target, duration = 2000) {
      const start = 0;
      const increment = target / (duration / 16);
      let current = start;
      const timer = setInterval(function() {
          current += increment;
          if (current >= target) {
              element.textContent = target;
              clearInterval(timer);
          } else {
              element.textContent = Math.floor(current);
          }
      }, 16);
  }
  \<close>
  \<open>timer\<close> is the interval callback, run until it clears itself; \<open>shown\<close> collects the
  numbers assigned to \<open>element.textContent\<close>, oldest first, so the text the element ends
  with is the last entry.  An interval that never clears itself is \<open>None\<close>.
\<close>

partial_function (option) timer ::
    "number \<Rightarrow> number \<Rightarrow> number \<Rightarrow> number list \<Rightarrow> number list option" where
  "timer target increment current shown =
     (let current' = fadd current increment in
      if fge current' target then Some (shown @ [target])
      else timer target increment current' (shown @ [ffloor current']))"

declare timer.simps [code]

definition animateCounter :: "number \<Rightarrow> number \<Rightarrow> number list option" where
  "animateCounter target duration =
     (let start = Fin 0;
          increment = fdiv target (fdiv duration (Fin 16))
      in timer target increment start [])"

text \<open>A number shown before the last: an integer from 0 up to, and not, the target.\<close>

definition below :: "int \<Rightarrow> number \<Rightarrow> bool" where
  "below target v =
     (case v of Fin x \<Rightarrow> x = of_int \<lfloor>x\<rfloor> \<and> 0 \<le> x \<and> x < of_int target | _ \<Rightarrow> False)"


section \<open>The browser: callbacks, animation frames, events\<close>

text \<open>
  A callback either returns or throws; both leave a state behind.  An exception that no
  handler of the page catches leaves the callback, and the browser reports it.
\<close>

datatype 'a outcome = Returned 'a | Threw 'a

text \<open>What the page can be told after its scripts have run.\<close>

datatype event =
    Intersection "bool list"
  | AnimationFrame
  | Resize
  | BeforeUnload

text \<open>
  \<open>Intersection es\<close>: an \<open>IntersectionObserver\<close> delivers its queued entries, \<open>es\<close>
  holding the \<open>isIntersecting\<close> of each; \<open>AnimationFrame\<close>: the browser runs the callbacks
  requested with \<open>requestAnimationFrame\<close>; \<open>Resize\<close> and \<open>BeforeUnload\<close>: the events of
  \<open>window\<close>.
\<close>

text \<open>What the scripts read from \<open>document\<close>, \<open>window\<close> and \<open>navigator\<close> when they start.\<close>

record page =
  canvasPresent :: bool
  prefersReducedMotion :: bool
  innerWidth :: int
  hardwareConcurrency :: "nat option"
  deviceMemory :: "rat option"
  random :: "nat \<Rightarrow> rat"

text \<open>A handle is truthy unless it is \<open>null\<close>, \<open>undefined\<close> or \<open>0\<close>.\<close>

fun truthy :: "nat option \<Rightarrow> bool" where
  "truthy None = False"
| "truthy (Some n) = (n \<noteq> 0)"


text \<open>
  The requests of one callback with \<open>requestAnimationFrame\<close>: \<open>pending\<close> holds the
  handles of the requests that wait for the next frame, oldest first; \<open>nextHandle\<close> is
  the handle that the next request gets (handles start at 1 and grow).
\<close>

record frame_queue =
  pending :: "nat list"
  nextHandle :: nat

definition no_requests :: frame_queue where
  "no_requests = \<lparr>pending = [], nextHandle = 1\<rparr>"

definition requestAnimationFrame :: "frame_queue \<Rightarrow> nat \<times> frame_queue" where
  "requestAnimationFrame q =
     (nextHandle q, q\<lparr>pending := pending q @ [nextHandle q], nextHandle := nextHandle q + 1\<rparr>)"

text \<open>Cancelling a handle that is not pending, or \<open>null\<close>, does nothing.\<close>

definition cancelAnimationFrame :: "nat option \<Rightarrow> frame_queue \<Rightarrow> frame_queue" where
  "cancelAnimationFrame h q =
     (case h of None \<Rightarrow> q | Some i \<Rightarrow> q\<lparr>pending := removeAll i (pending q)\<rparr>)"


section \<open>The pipeline-node canvas (initInteractivePipelineCanvas)\<close>

text \<open>The closures that the function pushes on \<open>cleanupRegistry\<close>, in the order of the source.\<close>

datatype cleanup_action =
    RemoveResizeListener
  | DisconnectObserver
  | RemoveMouseMoveListener

text \<open>
  The variables of the closure (\<open>isCanvasVisible\<close>, \<open>animationFrameId\<close>, \<open>particles\<close>), the
  global \<open>cleanupRegistry\<close>, the browser's side (\<open>raf\<close>: the requests for \<open>animate\<close>;
  \<open>observing\<close>: \<open>canvasObserver\<close> observes the canvas; the two listeners), and three
  counters that the proofs read: \<open>frameSteps\<close> counts the runs of the drawing code of
  \<open>animate\<close>, \<open>uncaught\<close> the exceptions that left a callback, \<open>cleanupsRun\<close> the calls
  of a registered cleanup closure.
\<close>

record canvas =
  isCanvasVisible :: bool
  animationFrameId :: "nat option"
  particles :: "particle list"
  cleanupRegistry :: "cleanup_action list"
  raf :: frame_queue
  observing :: bool
  resizeListener :: bool
  mouseMoveListener :: bool
  frameSteps :: nat
  uncaught :: nat
  cleanupsRun :: nat

definition no_canvas :: canvas where
  "no_canvas =
     \<lparr>isCanvasVisible = False, animationFrameId = None, particles = [], cleanupRegistry = [],
      raf = no_requests, observing = False, resizeListener = False,
      mouseMoveListener = False, frameSteps = 0, uncaught = 0, cleanupsRun = 0\<rparr>"

text \<open>
  \<^verbatim>\<open>
  function animate() {
      if (!isCanvasVisible) return; // Pause when not visible
      ctx.clearRect(0, 0, canvas.width, canvas.height);
      drawConnections();
      particles.forEach(p => { p.update(); p.draw(); });
      drawNodes();
      animationFrameId = requestAnimationFrame(animate);
  }
  \<close>
  The function has no \<open>try\<close>.  \<open>faulty n\<close> says that the \<open>n\<close>-th run of the drawing code
  throws; the exception is raised by the first call on the canvas context, before any
  particle is updated, and leaves \<open>animate\<close>.
\<close>

definition animate :: "(nat \<Rightarrow> bool) \<Rightarrow> canvas \<Rightarrow> canvas outcome" where
  "animate faulty c =
     (if \<not> isCanvasVisible c then Returned c
      else
        let c1 = c\<lparr>frameSteps := frameSteps c + 1\<rparr> in
        if faulty (frameSteps c1) then Threw c1
        else
          let c2 = c1\<lparr>particles := map update (particles c1)\<rparr>;
              (h, q) = requestAnimationFrame (raf c2)
          in Returned (c2\<lparr>raf := q, animationFrameId := Some h\<rparr>))"

text \<open>
  \<^verbatim>\<open>
  const canvasObserver = new IntersectionObserver((entries) => {
      entries.forEach(entry => {
          isCanvasVisible = entry.isIntersecting;
          if (isCanvasVisible && !animationFrameId) {
              animate();
          } else if (!isCanvasVisible && animationFrameId) {
              cancelAnimationFrame(animationFrameId);
              animationFrameId = null;
          }
      });
  }, { threshold: 0 });
  \<close>
\<close>

definition canvasObserver_entry :: "(nat \<Rightarrow> bool) \<Rightarrow> bool \<Rightarrow> canvas \<Rightarrow> canvas outcome" where
  "canvasObserver_entry faulty isIntersecting c =
     (let c1 = c\<lparr>isCanvasVisible := isIntersecting\<rparr> in
      if isCanvasVisible c1 \<and> \<not> truthy (animationFrameId c1) then animate faulty c1
      else if \<not> isCanvasVisible c1 \<and> truthy (animationFrameId c1) then
        Returned (c1\<lparr>raf := cancelAnimationFrame (animationFrameId c1) (raf c1),
                     animationFrameId := None\<rparr>)
      else Returned c1)"

text \<open>\<open>forEach\<close>: an exception thrown for one entry ends the loop.\<close>

fun canvasObserver :: "(nat \<Rightarrow> bool) \<Rightarrow> bool list \<Rightarrow> canvas \<Rightarrow> canvas outcome" where
  "canvasObserver faulty [] c = Returned c"
| "canvasObserver faulty (e # es) c =
     (case canvasObserver_entry faulty e c of
        Threw c' \<Rightarrow> Threw c'
      | Returned c' \<Rightarrow> canvasObserver faulty es c')"

text \<open>
  The function up to the registration of the mouse-move listener (the click and
  mouse-leave listeners that follow touch none of the fields here).  It returns at once
  when there is no canvas or when reduced motion is preferred; an exception of the first
  \<open>animate()\<close> leaves the function before the mouse-move listener is added.
\<close>

definition initInteractivePipelineCanvas :: "(nat \<Rightarrow> bool) \<Rightarrow> page \<Rightarrow> canvas \<Rightarrow> canvas outcome" where
  "initInteractivePipelineCanvas faulty env c =
     (if \<not> canvasPresent env then Returned c
      else if prefersReducedMotion env then Returned c
      else
        let isMobile = isMobileDevice (innerWidth env);
            isLowEnd = isLowEndDevice (hardwareConcurrency env) (deviceMemory env);
            c1 = c\<lparr>isCanvasVisible := True, animationFrameId := None,
                   resizeListener := True,
                   cleanupRegistry := cleanupRegistry c @ [RemoveResizeListener]\<rparr>;
            c2 = c1\<lparr>particles := createParticles (random env) 0 (particleCount isLowEnd isMobile)\<rparr>;
            c3 = c2\<lparr>observing := True,
                    cleanupRegistry := cleanupRegistry c2 @ [DisconnectObserver]\<rparr>
        in case animate faulty c3 of
             Threw c4 \<Rightarrow> Threw c4
           | Returned c4 \<Rightarrow>
               Returned (c4\<lparr>mouseMoveListener := True,
                            cleanupRegistry := cleanupRegistry c4 @ [RemoveMouseMoveListener]\<rparr>))"

text \<open>The browser reports an exception that left a callback, and goes on.\<close>

fun settle :: "canvas outcome \<Rightarrow> canvas" where
  "settle (Returned c) = c"
| "settle (Threw c) = c\<lparr>uncaught := uncaught c + 1\<rparr>"

text \<open>
  One event.  An observer that does not observe delivers nothing.  An animation frame
  takes the pending requests off the list and runs the callback of each.  The resize
  listener runs \<open>resizeCanvas\<close>, which sets the size of the canvas and the scale of its
  context, and \<open>beforeunload\<close> has no listener in this function: neither touches a field
  of the state.
\<close>

fun canvas_step :: "(nat \<Rightarrow> bool) \<Rightarrow> event \<Rightarrow> canvas \<Rightarrow> canvas" where
  "canvas_step faulty (Intersection es) c =
     (if observing c then settle (canvasObserver faulty es c) else c)"
| "canvas_step faulty AnimationFrame c =
     fold (\<lambda>_ s. settle (animate faulty s)) (pending (raf c))
       (c\<lparr>raf := (raf c)\<lparr>pending := []\<rparr>\<rparr>)"
| "canvas_step faulty Resize c = c"
| "canvas_step faulty BeforeUnload c = c"

definition canvas_run :: "(nat \<Rightarrow> bool) \<Rightarrow> event list \<Rightarrow> canvas \<Rightarrow> canvas" where
  "canvas_run faulty evs c = fold (canvas_step faulty) evs c"

definition canvas_start :: "(nat \<Rightarrow> bool) \<Rightarrow> page \<Rightarrow> canvas" where
  "canvas_start faulty env = settle (initInteractivePipelineCanvas faulty env no_canvas)"

text \<open>
  What the three registered closures do when they are called:
  \<^verbatim>\<open>
  () => window.removeEventListener('resize', resizeHandler)
  () => { canvasObserver.disconnect();
          if (animationFrameId) cancelAnimationFrame(animationFrameId); }
  () => canvas.removeEventListener('mousemove', handleMouseMove)
  \<close>
  pipeline-main.js pushes them on \<open>cleanupRegistry\<close> and holds no code that reads the
  array or calls a closure, at page unload or at any other time: no event of
  \<open>canvas_step\<close> runs \<open>run_cleanup\<close>.
\<close>

fun run_cleanup :: "cleanup_action \<Rightarrow> canvas \<Rightarrow> canvas" where
  "run_cleanup RemoveResizeListener c =
     c\<lparr>resizeListener := False, cleanupsRun := cleanupsRun c + 1\<rparr>"
| "run_cleanup DisconnectObserver c =
     (let c1 = c\<lparr>observing := False, cleanupsRun := cleanupsRun c + 1\<rparr>
      in if truthy (animationFrameId c1)
         then c1\<lparr>raf := cancelAnimationFrame (animationFrameId c1) (raf c1)\<rparr>
         else c1)"
| "run_cleanup RemoveMouseMoveListener c =
     c\<lparr>mouseMoveListener := False, cleanupsRun := cleanupsRun c + 1\<rparr>"

text \<open>
  What holds of the canvas effect between two callbacks.  \<open>single_request\<close>: at most one
  request is pending, and then the canvas counts as visible and \<open>animationFrameId\<close> holds
  the handle of that request.  \<open>canvas_inv\<close>: moreover, while the observer observes or a
  request is pending, the closure that disconnects and cancels is registered.
\<close>

definition single_request :: "canvas \<Rightarrow> bool" where
  "single_request c =
     (0 < nextHandle (raf c) \<and>
      (pending (raf c) = [] \<or>
       (isCanvasVisible c \<and> truthy (animationFrameId c)
        \<and> map Some (pending (raf c)) = [animationFrameId c])))"

definition canvas_inv :: "canvas \<Rightarrow> bool" where
  "canvas_inv c =
     (single_request c \<and>
      ((\<not> observing c \<and> pending (raf c) = []) \<or> DisconnectObserver \<in> set (cleanupRegistry c)))"

text \<open>
  \<open>stalled\<close>: no request is pending although the canvas counts as visible and
  \<open>animationFrameId\<close> still holds a handle: the state that an exception of the drawing code
  leaves.  \<open>no_exit\<close>: the event reports no entry that is not intersecting.
\<close>

definition stalled :: "canvas \<Rightarrow> bool" where
  "stalled c = (pending (raf c) = [] \<and> isCanvasVisible c \<and> truthy (animationFrameId c))"

definition no_exit :: "event \<Rightarrow> bool" where
  "no_exit ev = (case ev of Intersection es \<Rightarrow> False \<notin> set es | _ \<Rightarrow> True)"


section \<open>The particle canvas (initInteractivePipeline)\<close>

text \<open>
  The second effect on the same canvas.  Its variable \<open>animationFrame\<close> (\<open>undefined\<close> until
  the first request), the requests for its \<open>animate\<close>, the \<open>beforeunload\<close> listener, and
  the counters as above (\<open>unloads\<close> counts the runs of the \<open>beforeunload\<close> listener).  Its
  fifty particles are moved and drawn by the drawing code; they take no part in the
  scheduling and are left out.
\<close>

record pipeline =
  animationFrame :: "nat option"
  requests :: frame_queue
  unloadListener :: bool
  frameRuns :: nat
  escaped :: nat
  unloads :: nat

definition no_pipeline :: pipeline where
  "no_pipeline = \<lparr>animationFrame = None, requests = no_requests, unloadListener = False,
     frameRuns = 0, escaped = 0, unloads = 0\<rparr>"

text \<open>
  \<^verbatim>\<open>
  function animate() {
      ctx.clearRect(0, 0, canvas.width, canvas.height);
      // draw connections, update and draw particles
      animationFrame = requestAnimationFrame(animate);
  }
  \<close>
  It tests nothing before it draws and has no \<open>try\<close>; \<open>faulty\<close> is as above.
\<close>

definition pipeline_animate :: "(nat \<Rightarrow> bool) \<Rightarrow> pipeline \<Rightarrow> pipeline outcome" where
  "pipeline_animate faulty c =
     (let c1 = c\<lparr>frameRuns := frameRuns c + 1\<rparr> in
      if faulty (frameRuns c1) then Threw c1
      else
        let (h, q) = requestAnimationFrame (requests c1)
        in Returned (c1\<lparr>requests := q, animationFrame := Some h\<rparr>))"

text \<open>
  The function reads neither the reduced-motion preference nor any visibility: it
  returns at once only when there is no canvas.  An exception of the first \<open>animate()\<close>
  leaves it before the \<open>beforeunload\<close> listener is added.
\<close>

definition initInteractivePipeline :: "(nat \<Rightarrow> bool) \<Rightarrow> page \<Rightarrow> pipeline \<Rightarrow> pipeline outcome" where
  "initInteractivePipeline faulty env c =
     (if \<not> canvasPresent env then Returned c
      else
        case pipeline_animate faulty c of
          Threw c1 \<Rightarrow> Threw c1
        | Returned c1 \<Rightarrow> Returned (c1\<lparr>unloadListener := True\<rparr>))"

fun pipeline_settle :: "pipeline outcome \<Rightarrow> pipeline" where
  "pipeline_settle (Returned c) = c"
| "pipeline_settle (Threw c) = c\<lparr>escaped := escaped c + 1\<rparr>"

text \<open>
  One event.  The function creates no observer, so no intersection is delivered to it;
  its resize listener sets the size of the canvas only.
  \<^verbatim>\<open>
  window.addEventListener('beforeunload', function() {
      cancelAnimationFrame(animationFrame);
  });
  \<close>
\<close>

fun pipeline_step :: "(nat \<Rightarrow> bool) \<Rightarrow> event \<Rightarrow> pipeline \<Rightarrow> pipeline" where
  "pipeline_step faulty (Intersection es) c = c"
| "pipeline_step faulty AnimationFrame c =
     fold (\<lambda>_ s. pipeline_settle (pipeline_animate faulty s)) (pending (requests c))
       (c\<lparr>requests := (requests c)\<lparr>pending := []\<rparr>\<rparr>)"
| "pipeline_step faulty Resize c = c"
| "pipeline_step faulty BeforeUnload c =
     (if unloadListener c
      then c\<lparr>requests := cancelAnimationFrame (animationFrame c) (requests c),
             unloads := unloads c + 1\<rparr>
      else c)"

definition pipeline_run :: "(nat \<Rightarrow> bool) \<Rightarrow> event list \<Rightarrow> pipeline \<Rightarrow> pipeline" where
  "pipeline_run faulty evs c = fold (pipeline_step faulty) evs c"

definition pipeline_start :: "(nat \<Rightarrow> bool) \<Rightarrow> page \<Rightarrow> pipeline" where
  "pipeline_start faulty env = pipeline_settle (initInteractivePipeline faulty env no_pipeline)"



text \<open>
  What holds of the particle effect between two callbacks: at most one request is
  pending, and then \<open>animationFrame\<close> holds its handle and the \<open>beforeunload\<close> listener is
  there.
\<close>

definition pipeline_inv :: "pipeline \<Rightarrow> bool" where
  "pipeline_inv c =
     (pending (requests c) = [] \<or>
      (unloadListener c \<and> map Some (pending (requests c)) = [animationFrame c]))"


section \<open>One-shot effects\<close>

subsection \<open>The skill radar chart (initSkillRadarChart)\<close>

text \<open>
  \<^verbatim>\<open>
  const observer = new IntersectionObserver((entries) => {
      entries.forEach(entry => {
          if (entry.isIntersecting) {
              let progress = 0;
              const animate = () => { ... };
              animate();
              observer.disconnect();
          }
      });
  }, { threshold: 0.3 });
  observer.observe(container);
  \<close>
  \<open>chartFired\<close> counts the runs of the block under the \<open>if\<close>, which draws the chart and
  starts its growth animation; what the animation draws takes no part in whether the
  block runs again and is left out.  \<open>chartObserving\<close>: the observer observes the
  container.
\<close>

record radar =
  chartObserving :: bool
  chartFired :: nat

definition no_radar :: radar where
  "no_radar = \<lparr>chartObserving = False, chartFired = 0\<rparr>"

definition initSkillRadarChart :: "bool \<Rightarrow> radar \<Rightarrow> radar" where
  "initSkillRadarChart containerPresent r =
     (if \<not> containerPresent then r else r\<lparr>chartObserving := True\<rparr>)"

definition radar_entry :: "bool \<Rightarrow> radar \<Rightarrow> radar" where
  "radar_entry isIntersecting r =
     (if isIntersecting then r\<lparr>chartFired := chartFired r + 1, chartObserving := False\<rparr> else r)"

text \<open>
  \<open>disconnect()\<close> stops later deliveries; the \<open>forEach\<close> over the entries of the delivery
  that is being handled goes on to its end.
\<close>

fun radar_step :: "event \<Rightarrow> radar \<Rightarrow> radar" where
  "radar_step (Intersection es) r = (if chartObserving r then fold radar_entry es r else r)"
| "radar_step AnimationFrame r = r"
| "radar_step Resize r = r"
| "radar_step BeforeUnload r = r"

definition radar_run :: "event list \<Rightarrow> radar \<Rightarrow> radar" where
  "radar_run evs r = fold radar_step evs r"

subsection \<open>The metric and impact counters (initMetricCounters, initImpactCounters)\<close>

text \<open>
  What a check finds in the document: whether the section exists, the top and the bottom
  of its bounding rectangle, and \<open>window.innerHeight\<close>.
\<close>

record layout =
  sectionPresent :: bool
  rectTop :: rat
  rectBottom :: rat
  innerHeight :: rat

text \<open>
  \<^verbatim>\<open>
  let animated = false;
  function checkMetrics() {
      const metricsSection = document.querySelector('.metrics-dashboard');
      if (!metricsSection || animated) return;
      const rect = metricsSection.getBoundingClientRect();
      const isVisible = rect.top < window.innerHeight && rect.bottom >= 0;
      if (isVisible) {
          animated = true;
          metrics.forEach(metric => { ... animateCounter(metric, target); });
      }
  }
  window.addEventListener('scroll', checkMetrics);
  checkMetrics(); // Check on load
  \<close>
  \<open>metricsFired\<close> counts the runs of the block under \<open>if (isVisible)\<close>.
\<close>

record metric_counters =
  animated :: bool
  metricsFired :: nat

definition checkMetrics :: "layout \<Rightarrow> metric_counters \<Rightarrow> metric_counters" where
  "checkMetrics l c =
     (if \<not> sectionPresent l \<or> animated c then c
      else
        let isVisible = (rectTop l < innerHeight l \<and> rectBottom l \<ge> 0) in
        if isVisible then c\<lparr>animated := True, metricsFired := metricsFired c + 1\<rparr> else c)"

text \<open>The check on load, then one check per scroll event.\<close>

definition initMetricCounters :: "layout \<Rightarrow> metric_counters" where
  "initMetricCounters l = checkMetrics l \<lparr>animated = False, metricsFired = 0\<rparr>"

definition metrics_run :: "layout list \<Rightarrow> metric_counters \<Rightarrow> metric_counters" where
  "metrics_run scrolls c = fold checkMetrics scrolls c"

text \<open>\<open>initImpactCounters\<close> is the same code on \<open>.impact-section\<close>, with its own flag.\<close>

record impact_counters =
  impactAnimated :: bool
  impactFired :: nat

definition checkImpact :: "layout \<Rightarrow> impact_counters \<Rightarrow> impact_counters" where
  "checkImpact l c =
     (if \<not> sectionPresent l \<or> impactAnimated c then c
      else
        let isVisible = (rectTop l < innerHeight l \<and> rectBottom l \<ge> 0) in
        if isVisible then c\<lparr>impactAnimated := True, impactFired := impactFired c + 1\<rparr> else c)"

definition initImpactCounters :: "layout \<Rightarrow> impact_counters" where
  "initImpactCounters l = checkImpact l \<lparr>impactAnimated = False, impactFired = 0\<rparr>"

definition impact_run :: "layout list \<Rightarrow> impact_counters \<Rightarrow> impact_counters" where
  "impact_run scrolls c = fold checkImpact scrolls c"

text \<open>The section is in the document and overlaps the viewport.\<close>

definition in_view :: "layout \<Rightarrow> bool" where
  "in_view l = (sectionPresent l \<and> rectTop l < innerHeight l \<and> rectBottom l \<ge> 0)"


section \<open>The cleanup registry of utils.js (createCleanupRegistry)\<close>

text \<open>
  A listener is named by its element, its event and its handler.  The document keeps the
  listeners that are attached; \<open>removeCalls\<close> records the calls of \<open>removeEventListener\<close>,
  oldest first.
\<close>

type_synonym listener = "string \<times> string \<times> string"

record dom =
  attached :: "listener list"
  removeCalls :: "listener list"

text \<open>
  An element is whatever object the caller passes: the registry calls its two methods.
  The \<open>options\<close> argument is handed through to both and is left out.
\<close>

record element =
  addEventListener :: "string \<Rightarrow> string \<Rightarrow> dom \<Rightarrow> dom outcome"
  removeEventListener :: "string \<Rightarrow> string \<Rightarrow> dom \<Rightarrow> dom outcome"

text \<open>\<open>cleanups.forEach(fn => fn())\<close>: an exception of one closure ends the loop.\<close>

fun forEach :: "('w \<Rightarrow> 'w outcome) list \<Rightarrow> 'w \<Rightarrow> 'w outcome" where
  "forEach [] w = Returned w"
| "forEach (f # fs) w =
     (case f w of Threw w' \<Rightarrow> Threw w' | Returned w' \<Rightarrow> forEach fs w')"

text \<open>
  \<^verbatim>\<open>
  export function createCleanupRegistry() {
      const cleanups = [];
      return {
          add(element, event, handler, options) {
              element.addEventListener(event, handler, options);
              cleanups.push(() => element.removeEventListener(event, handler, options));
          },
          cleanup() {
              cleanups.forEach(fn => fn());
              cleanups.length = 0;
          }
      };
  }
  \<close>
  The state is the array \<open>cleanups\<close> and the document.  Neither method has a \<open>try\<close>.
\<close>

type_synonym registry = "(dom \<Rightarrow> dom outcome) list \<times> dom"

definition createCleanupRegistry :: "dom \<Rightarrow> registry" where
  "createCleanupRegistry d = ([], d)"

definition add :: "element \<Rightarrow> string \<Rightarrow> string \<Rightarrow> registry \<Rightarrow> registry outcome" where
  "add el event handler r =
     (case addEventListener el event handler (snd r) of
        Threw d \<Rightarrow> Threw (fst r, d)
      | Returned d \<Rightarrow> Returned (fst r @ [removeEventListener el event handler], d))"

definition cleanup :: "registry \<Rightarrow> registry outcome" where
  "cleanup r =
     (case forEach (fst r) (snd r) of
        Threw d \<Rightarrow> Threw (fst r, d)
      | Returned d \<Rightarrow> Returned ([], d))"

text \<open>The state that a call leaves, and whether an exception left it.\<close>

fun state_of :: "'a outcome \<Rightarrow> 'a" where
  "state_of (Returned s) = s"
| "state_of (Threw s) = s"

fun threw :: "'a outcome \<Rightarrow> bool" where
  "threw (Returned s) = False"
| "threw (Threw s) = True"

text \<open>
  Two kinds of element.  An event target of the document: adding a listener that is
  attached already changes nothing, removing detaches it.  And an object whose
  \<open>removeEventListener\<close> throws when it is called.
\<close>

definition eventTarget :: "string \<Rightarrow> element" where
  "eventTarget n =
     \<lparr>addEventListener = (\<lambda>e h d.
        Returned (d\<lparr>attached := (if (n, e, h) \<in> set (attached d) then attached d
                                  else attached d @ [(n, e, h)])\<rparr>)),
      removeEventListener = (\<lambda>e h d.
        Returned (d\<lparr>attached := removeAll (n, e, h) (attached d),
                    removeCalls := removeCalls d @ [(n, e, h)]\<rparr>))\<rparr>"

definition brokenTarget :: "string \<Rightarrow> element" where
  "brokenTarget n =
     \<lparr>addEventListener = (\<lambda>e h d.
        Returned (d\<lparr>attached := (if (n, e, h) \<in> set (attached d) then attached d
                                  else attached d @ [(n, e, h)])\<rparr>)),
      removeEventListener = (\<lambda>e h d.
        Threw (d\<lparr>removeCalls := removeCalls d @ [(n, e, h)]\<rparr>))\<rparr>"

text \<open>The closures that \<open>add\<close> pushes for a listener of each kind.\<close>

definition removal :: "listener \<Rightarrow> dom \<Rightarrow> dom outcome" where
  "removal l = removeEventListener (eventTarget (fst l)) (fst (snd l)) (snd (snd l))"

definition broken_removal :: "listener \<Rightarrow> dom \<Rightarrow> dom outcome" where
  "broken_removal l = removeEventListener (brokenTarget (fst l)) (fst (snd l)) (snd (snd l))"


section \<open>Inputs of the examples\<close>

text \<open>
  A desktop browser with the canvas in the document and no preference for reduced
  motion; drawing code whose fifth run throws; three listeners.
\<close>

definition desktop :: page where
  "desktop = \<lparr>canvasPresent = True, prefersReducedMotion = False, innerWidth = 1280,
     hardwareConcurrency = Some 8, deviceMemory = Some 8, random = (\<lambda>_. 1 / 2)\<rparr>"

definition fifth :: "nat \<Rightarrow> bool" where
  "fifth n = (n = 5)"

definition resize_listener :: listener where
  "resize_listener = (''window'', ''resize'', ''resizeHandler'')"

definition scroll_listener :: listener where
  "scroll_listener = (''document'', ''scroll'', ''handleScroll'')"

definition mousemove_listener :: listener where
  "mousemove_listener = (''canvas'', ''mousemove'', ''handleMouseMove'')"


section \<open>Properties of the particles\<close>

lemma length_nodes: "length nodes = 5"
  by (simp add: nodes_def)

lemma indexOf_range: "- 1 \<le> indexOf xs v \<and> indexOf xs v < int (length xs)"
  by (induction xs) (auto simp: Let_def)

lemma indexOf_nth: "0 \<le> indexOf xs v \<Longrightarrow> xs ! nat (indexOf xs v) = v"
proof (induction xs)
  case Nil
  then show ?case by simp
next
  case (Cons u us)
  show ?case
  proof (cases "u = v")
    case True
    then show ?thesis by simp
  next
    case False
    with Cons.prems have nonneg: "0 \<le> indexOf us v"
      by (simp add: Let_def split: if_splits)
    with False have "indexOf (u # us) v = indexOf us v + 1"
      by (simp add: Let_def)
    moreover have "nat (indexOf us v + 1) = Suc (nat (indexOf us v))"
      using nonneg by simp
    ultimately show ?thesis using Cons.IH [OF nonneg] by simp
  qed
qed

lemma indexOf_distinct: "distinct xs \<Longrightarrow> i < length xs \<Longrightarrow> indexOf xs (xs ! i) = int i"
proof (induction xs arbitrary: i)
  case Nil
  then show ?case by simp
next
  case (Cons u us)
  show ?case
  proof (cases i)
    case 0
    then show ?thesis by simp
  next
    case (Suc j)
    with Cons.prems have j: "j < length us" and d: "distinct us" and "u \<noteq> us ! j"
      by auto
    then show ?thesis using Suc Cons.IH [OF d j] by (simp add: Let_def)
  qed
qed

lemma distinct_nodes: "distinct nodes"
  by (simp add: nodes_def)

lemma adjacent_iff: "adjacent a b \<longleftrightarrow> (\<exists>i<4. a = nodes ! i \<and> b = nodes ! Suc i)"
proof
  assume adj: "adjacent a b"
  let ?i = "nat (indexOf nodes a)"
  from adj have "0 \<le> indexOf nodes a" and "indexOf nodes a < 4"
    and b: "b = nodes ! nat (indexOf nodes a + 1)"
    by (simp_all add: adjacent_def)
  then have "?i < 4" and "a = nodes ! ?i" and "nat (indexOf nodes a + 1) = Suc ?i"
    by (simp_all add: indexOf_nth)
  with b show "\<exists>i<4. a = nodes ! i \<and> b = nodes ! Suc i" by auto
next
  assume "\<exists>i<4. a = nodes ! i \<and> b = nodes ! Suc i"
  then obtain i where i: "i < 4" and a: "a = nodes ! i" and b: "b = nodes ! Suc i" by blast
  from i have "indexOf nodes (nodes ! i) = int i"
    by (simp add: indexOf_distinct distinct_nodes length_nodes)
  with i a b show "adjacent a b"
    by (simp add: adjacent_def nat_add_distrib)
qed

lemma update_keeps_speed: "speed (update p) = speed p"
  by (simp add: update_def Let_def)

lemma update_progress:
  assumes "0 \<le> progress p" "0 \<le> speed p"
  shows "0 \<le> progress (update p) \<and> progress (update p) < 1"
  using assms by (simp add: update_def Let_def)

lemma update_adjacent:
  assumes "adjacent (startNode p) (endNode p)"
  shows "adjacent (startNode (update p)) (endNode (update p))"
proof (cases "1 \<le> progress p + speed p")
  case False
  then show ?thesis using assms by (simp add: update_def Let_def)
next
  case wrap: True
  from assms obtain i where i: "i < 4" and e: "endNode p = nodes ! Suc i"
    unfolding adjacent_iff by blast
  then have idx: "indexOf nodes (endNode p) = int (Suc i)"
    by (simp add: indexOf_distinct distinct_nodes length_nodes)
  show ?thesis
  proof (cases "Suc i < 4")
    case True
    with wrap idx e have "startNode (update p) = nodes ! Suc i"
      and "endNode (update p) = nodes ! Suc (Suc i)"
      by (simp_all add: update_def Let_def length_nodes nat_add_distrib)
    with True show ?thesis unfolding adjacent_iff by blast
  next
    case False
    with wrap idx have "startNode (update p) = nodes ! 0"
      and "endNode (update p) = nodes ! Suc 0"
      by (simp_all add: update_def Let_def length_nodes)
    then show ?thesis unfolding adjacent_iff by (intro exI [of _ 0]) simp
  qed
qed

lemma update_ok: "particle_ok p \<Longrightarrow> particle_ok (update p)"
  using update_adjacent [of p] update_progress [of p]
  by (simp add: particle_ok_def particle_inv_def update_keeps_speed)

lemma floor_index:
  fixes r :: rat
  assumes "0 \<le> r" "r < 1"
  shows "nat \<lfloor>r * (of_nat (length nodes) - 1)\<rfloor> < 4"
proof -
  have "r * 4 < 4" using assms by simp
  then have "\<lfloor>r * 4\<rfloor> < 4" by (simp add: floor_less_iff)
  then have "nat \<lfloor>r * 4\<rfloor> < 4" by linarith
  then show ?thesis by (simp add: length_nodes)
qed

lemma Particle_ok:
  assumes "i < 4" "0 \<le> r1"
  shows "particle_ok (Particle (nodes ! i) (nodes ! Suc i) r1 r2)"
proof -
  have "adjacent (nodes ! i) (nodes ! Suc i)"
    unfolding adjacent_iff using assms(1) by blast
  then show ?thesis using assms(2)
    by (simp add: particle_ok_def particle_inv_def Particle_def)
qed

lemma createParticles_ok:
  assumes "\<forall>k. 0 \<le> rnd k \<and> rnd k < 1"
  shows "list_all particle_ok (createParticles rnd k n)"
proof (induction n arbitrary: k)
  case 0
  show ?case by simp
next
  case (Suc n)
  let ?i = "nat \<lfloor>rnd k * (of_nat (length nodes) - 1)\<rfloor>"
  have "?i < 4" using assms floor_index by blast
  moreover have "0 \<le> rnd (k + 1)" using assms by blast
  ultimately have "particle_ok (Particle (nodes ! ?i) (nodes ! Suc ?i) (rnd (k + 1)) (rnd (k + 2)))"
    by (rule Particle_ok)
  then show ?case using Suc.IH [of "k + 3"]
    by (simp add: Let_def del: of_nat_diff)
qed

lemma frames_ok: "list_all particle_ok ps \<Longrightarrow> list_all particle_ok ((map update ^^ n) ps)"
  by (induction n) (simp_all add: list_all_iff update_ok)

lemma animate_particles:
  assumes "list_all particle_ok (particles c)"
  shows "list_all particle_ok (particles (settle (animate faulty c)))"
  using assms
  by (simp add: animate_def requestAnimationFrame_def Let_def list_all_iff update_ok)

lemma entry_particles:
  assumes "list_all particle_ok (particles c)"
  shows "list_all particle_ok (particles (settle (canvasObserver_entry faulty e c)))"
proof (cases "e \<and> \<not> truthy (animationFrameId c)")
  case True
  have "list_all particle_ok (particles (c\<lparr>isCanvasVisible := e\<rparr>))" using assms by simp
  then have "list_all particle_ok (particles (settle (animate faulty (c\<lparr>isCanvasVisible := e\<rparr>))))"
    by (rule animate_particles)
  with True show ?thesis by (simp add: canvasObserver_entry_def Let_def)
next
  case False
  with assms show ?thesis by (auto simp: canvasObserver_entry_def Let_def)
qed

lemma observer_particles:
  assumes "list_all particle_ok (particles c)"
  shows "list_all particle_ok (particles (settle (canvasObserver faulty es c)))"
  using assms
proof (induction es arbitrary: c)
  case Nil
  then show ?case by simp
next
  case (Cons e es)
  have ok: "list_all particle_ok (particles (settle (canvasObserver_entry faulty e c)))"
    using Cons.prems by (rule entry_particles)
  show ?case
  proof (cases "canvasObserver_entry faulty e c")
    case (Threw c')
    with ok show ?thesis by simp
  next
    case (Returned c')
    with ok have "list_all particle_ok (particles c')" by simp
    then have "list_all particle_ok (particles (settle (canvasObserver faulty es c')))"
      by (rule Cons.IH)
    with Returned show ?thesis by simp
  qed
qed

lemma frames_particles:
  assumes "list_all particle_ok (particles c)"
  shows "list_all particle_ok (particles (fold (\<lambda>_ s. settle (animate faulty s)) hs c))"
  using assms by (induction hs arbitrary: c) (simp_all add: animate_particles)

lemma step_particles:
  assumes "list_all particle_ok (particles c)"
  shows "list_all particle_ok (particles (canvas_step faulty ev c))"
proof (cases ev)
  case (Intersection es)
  with assms show ?thesis by (simp add: observer_particles)
next
  case AnimationFrame
  have "list_all particle_ok (particles (c\<lparr>raf := (raf c)\<lparr>pending := []\<rparr>\<rparr>))"
    using assms by simp
  then show ?thesis unfolding AnimationFrame canvas_step.simps by (rule frames_particles)
qed (use assms in simp_all)

lemma run_particles:
  assumes "list_all particle_ok (particles c)"
  shows "list_all particle_ok (particles (canvas_run faulty evs c))"
  using assms unfolding canvas_run_def
  by (induction evs arbitrary: c) (simp_all add: step_particles)

lemma start_particles:
  assumes "\<forall>k. 0 \<le> random env k \<and> random env k < 1"
  shows "list_all particle_ok (particles (canvas_start faulty env))"
proof (cases "canvasPresent env \<and> \<not> prefersReducedMotion env")
  case False
  then show ?thesis
    by (auto simp: canvas_start_def initInteractivePipelineCanvas_def no_canvas_def)
next
  case True
  define ps where "ps = createParticles (random env) 0
      (particleCount (isLowEndDevice (hardwareConcurrency env) (deviceMemory env))
         (isMobileDevice (innerWidth env)))"
  define c3 where "c3 = no_canvas\<lparr>isCanvasVisible := True, animationFrameId := None,
      resizeListener := True, cleanupRegistry := [RemoveResizeListener],
      particles := ps, observing := True,
      cleanupRegistry := [RemoveResizeListener, DisconnectObserver]\<rparr>"
  have "list_all particle_ok ps" unfolding ps_def using assms by (rule createParticles_ok)
  then have "list_all particle_ok (particles c3)" by (simp add: c3_def)
  then have ok: "list_all particle_ok (particles (settle (animate faulty c3)))"
    by (rule animate_particles)
  have "canvas_start faulty env =
      (case animate faulty c3 of Threw c4 \<Rightarrow> settle (Threw c4)
       | Returned c4 \<Rightarrow> c4\<lparr>mouseMoveListener := True,
           cleanupRegistry := cleanupRegistry c4 @ [RemoveMouseMoveListener]\<rparr>)"
    using True
    by (simp add: canvas_start_def initInteractivePipelineCanvas_def Let_def c3_def ps_def
        no_canvas_def split: outcome.splits)
  with ok show ?thesis by (cases "animate faulty c3") simp_all
qed

text \<open>
  Claim C10.  Every particle that the creation loop makes satisfies, after any number of
  frames (each frame calls \<open>update\<close> once on every particle), the invariant
  \<open>particle_inv\<close>: its progress lies in the half-open interval from 0 to 1, and its end
  node is the node that follows its start node in the array of the five pipeline nodes.
  So do the particles of the canvas effect in every state that a sequence of events
  leads to.  The draws of \<open>Math.random()\<close> lie in the half-open interval from 0 to 1.
\<close>

theorem particle_invariant:
  assumes "\<forall>k. 0 \<le> random env k \<and> random env k < 1"
  shows "list_all particle_inv ((map update ^^ n) (createParticles (random env) 0 count))
         \<and> list_all particle_inv (particles (canvas_run faulty evs (canvas_start faulty env)))"
proof -
  have "list_all particle_ok ((map update ^^ n) (createParticles (random env) 0 count))"
    using assms by (intro frames_ok createParticles_ok)
  moreover have "list_all particle_ok (particles (canvas_run faulty evs (canvas_start faulty env)))"
    using assms by (intro run_particles start_particles)
  ultimately show ?thesis by (simp add: list_all_iff particle_ok_def)
qed

theorem particle_invariant_witness:
  "list_all particle_inv ((map update ^^ 3) (createParticles (random desktop) 0 2))
   \<and> list_all particle_inv
        (particles (canvas_run (\<lambda>_. False) [AnimationFrame, Intersection [False, True]]
           (canvas_start (\<lambda>_. False) desktop)))"
  using particle_invariant [of desktop 3 2 "\<lambda>_. False"
      "[AnimationFrame, Intersection [False, True]]"]
  by (simp add: desktop_def)

text \<open>A particle that completes the last edge starts again on the first one.\<close>

lemma update_wraps:
  assumes "endNode p = nodes ! 4" "1 \<le> progress p + speed p"
  shows "startNode (update p) = nodes ! 0 \<and> endNode (update p) = nodes ! 1
           \<and> progress (update p) = 0"
proof -
  have "indexOf nodes (nodes ! 4) = 4"
    using indexOf_distinct [OF distinct_nodes, of 4] by (simp add: length_nodes)
  with assms show ?thesis by (simp add: update_def Let_def length_nodes)
qed


section \<open>Properties of the device tiers\<close>

text \<open>
  Claim C7, as amended.  A device that reports 2 logical cores is low-end whatever
  memory it reports, and a low-end device gets 5 particles on any viewport.  A device
  that is not low-end gets 20 particles on a viewport at least 768 pixels wide and 10 on
  a narrower one: the low-end count is a quarter of the first and half of the second.
\<close>

theorem low_end_particle_count:
  "isLowEndDevice (Some 2) mem
   \<and> particleCount (isLowEndDevice (Some 2) mem) (isMobileDevice w) = 5
   \<and> particleCount False (isMobileDevice w) = (if w < 768 then 10 else 20)
   \<and> 4 * particleCount True False = particleCount False False
   \<and> 2 * particleCount True True = particleCount False True"
  by (simp add: isLowEndDevice_def or_default_def particleCount_def isMobileDevice_def)

text \<open>
  On a viewport 390 pixels wide, a device with 8 cores and 8 GiB is not low-end and gets
  10 particles; the device with 2 cores gets 5 there, which is half and not a quarter.
\<close>

theorem low_end_quarter_counterexample:
  "\<not> isLowEndDevice (Some 8) (Some 8)
   \<and> isLowEndDevice (Some 2) (Some 8)
   \<and> particleCount (isLowEndDevice (Some 8) (Some 8)) (isMobileDevice 390) = 10
   \<and> particleCount (isLowEndDevice (Some 2) (Some 8)) (isMobileDevice 390) = 5
   \<and> 4 * particleCount (isLowEndDevice (Some 2) (Some 8)) (isMobileDevice 390)
       \<noteq> particleCount (isLowEndDevice (Some 8) (Some 8)) (isMobileDevice 390)"
  by (simp add: isLowEndDevice_def or_default_def particleCount_def isMobileDevice_def)


section \<open>Properties of the counter animation\<close>

lemma pow2_powi: "pow2 e = 2 powi e"
proof (cases "0 \<le> e")
  case True
  then show ?thesis by (simp add: pow2_def power_int_def)
next
  case False
  have "1 / (2::rat) ^ nat (- e) = inverse 2 ^ nat (- e)"
    by (simp add: power_one_over)
  with False show ?thesis by (simp only: pow2_def power_int_def if_False)
qed

lemma pow2_pos: "0 < pow2 e"
  by (simp add: pow2_powi)

lemma pow2_mono: "i \<le> j \<Longrightarrow> pow2 i \<le> pow2 j"
  by (simp add: pow2_powi power_int_increasing)

lemma exponent_le:
  assumes "0 < x"
  shows "pow2 (exponent x) \<le> x"
proof -
  obtain a b where q: "quotient_of x = (a, b)" by (cases "quotient_of x")
  then have x: "x = of_int a / of_int b" and b: "0 < b"
    by (simp_all add: quotient_of_div quotient_of_denom_pos)
  with assms have a: "0 < a" by (simp add: zero_less_divide_iff)
  let ?e = "bitlen a - bitlen b"
  show ?thesis
  proof (cases "pow2 ?e \<le> x")
    case True
    with q show ?thesis by (simp add: exponent_def)
  next
    case False
    from bitlen_bounds [OF a] have "(2::int) ^ nat (bitlen a - 1) \<le> a" by simp
    then have "(of_int ((2::int) ^ nat (bitlen a - 1)) :: rat) \<le> of_int a"
      by (simp only: of_int_le_iff)
    moreover have "bitlen a \<noteq> 0" using a by (simp add: bitlen_eq_zero_iff)
    then have "1 \<le> bitlen a" using bitlen_nonneg [of a] by linarith
    ultimately have lo: "pow2 (bitlen a - 1) \<le> of_int a"
      by (simp add: pow2_def)
    from bitlen_bounds [OF b] have "b < (2::int) ^ nat (bitlen b)" by simp
    then have "(of_int b :: rat) < of_int ((2::int) ^ nat (bitlen b))"
      by (simp only: of_int_less_iff)
    then have hi: "of_int b < pow2 (bitlen b)"
      by (simp add: pow2_def bitlen_nonneg)
    have "?e - 1 = (bitlen a - 1) - bitlen b" by simp
    then have "pow2 (?e - 1) = pow2 (bitlen a - 1) / pow2 (bitlen b)"
      by (simp only: pow2_powi) (simp add: power_int_diff)
    also have "\<dots> \<le> of_int a / pow2 (bitlen b)"
      using lo pow2_pos [of "bitlen b"] by (simp add: divide_right_mono)
    also have "\<dots> \<le> of_int a / of_int b"
      using hi a b by (intro divide_left_mono) simp_all
    finally have "pow2 (?e - 1) \<le> x" using x by simp
    with False q show ?thesis by (simp add: exponent_def)
  qed
qed

lemma round_even_error: "\<bar>of_int (round_even q) - q\<bar> \<le> 1 / 2"
proof -
  have "of_int \<lfloor>q\<rfloor> \<le> q" "q < of_int \<lfloor>q\<rfloor> + 1" by linarith+
  then show ?thesis
    by (auto simp: round_even_def Let_def abs_le_iff)
qed

lemma ulp_bounds:
  assumes "pow2 (- 1022) \<le> a"
  shows "0 < ulp a" "ulp a \<le> a / 2 ^ 52"
proof -
  have a: "0 < a" using pow2_pos assms by (rule less_le_trans)
  show "0 < ulp a" by (simp add: ulp_def pow2_pos)
  have "pow2 (max (exponent a) (- 1022)) \<le> a"
  proof (cases "exponent a \<le> - 1022")
    case True
    then have "max (exponent a) (- 1022) = - 1022" by simp
    with assms show ?thesis by (simp only:)
  next
    case False
    then have "max (exponent a) (- 1022) = exponent a" by simp
    with exponent_le [OF a] show ?thesis by (simp only:)
  qed
  then show "ulp a \<le> a / 2 ^ 52" unfolding ulp_def by (rule divide_right_mono) simp
qed

lemma round_magnitude_error:
  assumes "pow2 (- 1022) \<le> a"
  shows "\<bar>round_magnitude a - a\<bar> \<le> a / 2 ^ 53"
proof -
  note u = ulp_bounds [OF assms]
  have "round_magnitude a - a = (of_int (round_even (a / ulp a)) - a / ulp a) * ulp a"
    using u(1) by (simp add: round_magnitude_def left_diff_distrib)
  then have "\<bar>round_magnitude a - a\<bar> = \<bar>of_int (round_even (a / ulp a)) - a / ulp a\<bar> * ulp a"
    using u(1) by (simp add: abs_mult)
  also have "\<dots> \<le> (1 / 2) * ulp a"
    using round_even_error [of "a / ulp a"] u(1) by (intro mult_right_mono) simp_all
  also have "\<dots> \<le> (1 / 2) * (a / 2 ^ 52)" using u(2) by simp
  also have "\<dots> = a / 2 ^ 53" by simp
  finally show ?thesis .
qed

lemma fl_pos:
  assumes "pow2 (- 1022) \<le> x"
  obtains r where "\<bar>r - x\<bar> \<le> x / 2 ^ 53" "0 < r"
    "fl x = (if pow2 1024 \<le> r then PosInf else Fin r)"
proof -
  have x: "0 < x" using pow2_pos assms by (rule less_le_trans)
  let ?r = "round_magnitude \<bar>x\<bar>"
  have err: "\<bar>?r - x\<bar> \<le> x / 2 ^ 53" using round_magnitude_error [OF assms] x by simp
  have "x / 2 ^ 53 < x" using x by simp
  with err have r: "0 < ?r" by linarith
  with x have "fl x = (if pow2 1024 \<le> ?r then PosInf else Fin ?r)"
    by (simp add: fl_def Let_def)
  with err r show ?thesis by (rule that)
qed


lemma fadd_Fin:
  assumes "x + y \<noteq> 0"
  shows "fadd (Fin x) (Fin y) = fl (x + y)"
  using assms by (simp add: fadd_def)

lemma fdiv_Fin:
  assumes "x \<noteq> 0" "y \<noteq> 0"
  shows "fdiv (Fin x) (Fin y) = fl (x / y)"
  using assms by (simp add: fdiv_def)

lemma timer_finishes:
  fixes T :: rat
  assumes T: "T = of_int target" "1 \<le> T"
    and inc: "T / 2 ^ 43 \<le> inc" "inc \<le> 4 * T"
    and c: "0 \<le> c" "c < T"
  shows "\<exists>ys. timer (Fin T) (Fin inc) (Fin c) shown = Some (shown @ ys @ [Fin T])
            \<and> list_all (below target) ys"
  using c
proof (induction "nat \<lceil>(T - c) / (inc / 2)\<rceil>" arbitrary: c shown rule: less_induct)
  case less
  have ipos: "0 < inc" using inc(1) T(2) by (simp add: field_simps)
  let ?y = "c + inc"
  have ypos: "0 < ?y" using less.prems ipos by simp
  have "pow2 (- 43) \<le> ?y"
  proof -
    have "pow2 (- 43) = 1 / 2 ^ 43" by (simp add: pow2_def)
    also have "\<dots> \<le> T / 2 ^ 43" using T(2) by (simp add: divide_right_mono)
    also have "\<dots> \<le> ?y" using inc(1) less.prems by simp
    finally show ?thesis .
  qed
  with pow2_mono [of "- 1022" "- 43"] have "pow2 (- 1022) \<le> ?y" by simp
  then obtain r where err: "\<bar>r - ?y\<bar> \<le> ?y / 2 ^ 53" and rpos: "0 < r"
    and fl: "fl ?y = (if pow2 1024 \<le> r then PosInf else Fin r)"
    by (rule fl_pos)
  have add: "fadd (Fin c) (Fin inc) = fl ?y" using ypos by (simp add: fadd_Fin)
  have "?y \<le> 5 * T" using less.prems inc(2) by simp
  then have "?y / 2 ^ 53 \<le> 5 * T / 2 ^ 53" by (simp add: divide_right_mono)
  also have "\<dots> \<le> (T / 2 ^ 43) / 2" using T(2) by simp
  also have "\<dots> \<le> inc / 2" using inc(1) by simp
  finally have "?y / 2 ^ 53 \<le> inc / 2" .
  with err have progress: "c + inc / 2 \<le> r" by linarith
  show ?case
  proof (cases "pow2 1024 \<le> r \<or> T \<le> r")
    case True
    then have "fge (fl ?y) (Fin T)" using fl by auto
    with add have "timer (Fin T) (Fin inc) (Fin c) shown = Some (shown @ [] @ [Fin T])"
      by (subst timer.simps) (simp add: Let_def)
    then show ?thesis by (intro exI [of _ "[]"]) simp
  next
    case False
    then have fin: "fl ?y = Fin r" and rT: "r < T" using fl by auto
    have r0: "0 \<le> r" using rpos by simp
    have "T - r \<le> (T - c) - inc / 2" using progress by linarith
    then have "(T - r) / (inc / 2) \<le> ((T - c) - inc / 2) / (inc / 2)"
      using ipos by (intro divide_right_mono) simp_all
    also have "\<dots> = (T - c) / (inc / 2) - 1"
      using ipos by (simp add: diff_divide_distrib)
    finally have "(T - r) / (inc / 2) \<le> (T - c) / (inc / 2) - 1" .
    then have "\<lceil>(T - r) / (inc / 2)\<rceil> \<le> \<lceil>(T - c) / (inc / 2) - 1\<rceil>"
      by (rule ceiling_mono)
    then have "\<lceil>(T - r) / (inc / 2)\<rceil> \<le> \<lceil>(T - c) / (inc / 2)\<rceil> - 1" by simp
    moreover have "0 < \<lceil>(T - r) / (inc / 2)\<rceil>" using rT ipos by simp
    ultimately have "nat \<lceil>(T - r) / (inc / 2)\<rceil> < nat \<lceil>(T - c) / (inc / 2)\<rceil>"
      by linarith
    from less.hyps [OF this r0 rT, of "shown @ [ffloor (Fin r)]"]
    obtain ys where run: "timer (Fin T) (Fin inc) (Fin r) (shown @ [ffloor (Fin r)])
          = Some ((shown @ [ffloor (Fin r)]) @ ys @ [Fin T])"
      and ok: "list_all (below target) ys"
      by blast
    have "\<not> fge (fl ?y) (Fin T)" using fin rT by simp
    with add fin run
    have "timer (Fin T) (Fin inc) (Fin c) shown = Some (shown @ (ffloor (Fin r) # ys) @ [Fin T])"
      by (subst timer.simps) (simp add: Let_def)
    moreover have "below target (ffloor (Fin r))"
      using r0 rT T(1) by (simp add: below_def floor_less_iff)
    ultimately show ?thesis using ok by (intro exI [of _ "ffloor (Fin r) # ys"]) simp
  qed
qed


lemma small_is_finite:
  fixes r :: rat
  assumes "r \<le> 2 ^ 40"
  shows "\<not> pow2 1024 \<le> r"
proof -
  have "(2::rat) ^ 40 < 2 ^ 1024" by (rule power_strict_increasing) simp_all
  also have "\<dots> = pow2 1024" by (simp only: pow2_def) simp
  finally show ?thesis using assms by simp
qed

text \<open>
  Claim C9.  For a positive integer target and a duration from 16 milliseconds (one
  tick) to \<open>2^40\<close> milliseconds, which holds of the 2000 and 2500 of the callers, the
  interval clears itself: the animation ends, the last number written to the element is
  the target, and every number written before is the floor of a running value below the
  target, an integer that is smaller than the target and not negative.  The arithmetic
  is that of doubles.
\<close>

theorem animateCounter_reaches_target:
  assumes "0 < target" "16 \<le> duration" "duration \<le> 2 ^ 40"
  shows "\<exists>shown. animateCounter (Fin (of_int target)) (Fin duration)
              = Some (shown @ [Fin (of_int target)])
            \<and> list_all (below target) shown"
proof -
  define T :: rat where "T = of_int target"
  have T: "1 \<le> T" using assms(1) by (simp add: T_def)
  let ?x = "duration / 16"
  have x: "1 \<le> ?x" "?x \<le> 2 ^ 36" using assms(2,3) by simp_all
  have "pow2 (- 1022) \<le> pow2 0" by (rule pow2_mono) simp
  also have "\<dots> \<le> ?x" using x(1) by (simp add: pow2_def)
  finally obtain q where qerr: "\<bar>q - ?x\<bar> \<le> ?x / 2 ^ 53" and qpos: "0 < q"
    and flq: "fl ?x = (if pow2 1024 \<le> q then PosInf else Fin q)"
    by (rule fl_pos)
  have "?x / 2 ^ 53 \<le> ?x / 2" using x(1) by simp
  with qerr have qlo: "?x / 2 \<le> q" and qhi: "q \<le> 2 * ?x" by linarith+
  from qhi x(2) have "q \<le> 2 ^ 40" by simp
  then have "\<not> pow2 1024 \<le> q" by (rule small_is_finite)
  with flq have q: "fdiv (Fin duration) (Fin 16) = Fin q"
    using assms(2) by (simp add: fdiv_Fin)
  have q_half: "1 / 2 \<le> q" using qlo x(1) by linarith
  have q_big: "q \<le> 2 ^ 37" using qhi x(2) by simp
  define z where "z = T / q"
  have zlo: "T / 2 ^ 37 \<le> z"
    unfolding z_def using q_big qpos T by (intro divide_left_mono) simp_all
  have zhi: "z \<le> 2 * T"
  proof -
    have "z \<le> T / (1 / 2)"
      unfolding z_def using q_half T by (intro divide_left_mono) simp_all
    then show ?thesis by simp
  qed
  have "pow2 (- 1022) \<le> pow2 (- 37)" by (rule pow2_mono) simp
  also have "\<dots> = 1 / 2 ^ 37" by (simp add: pow2_def)
  also have "\<dots> \<le> T / 2 ^ 37" using T by (simp add: divide_right_mono)
  also have "\<dots> \<le> z" by (rule zlo)
  finally obtain i where ierr: "\<bar>i - z\<bar> \<le> z / 2 ^ 53" and ipos: "0 < i"
    and fli: "fl z = (if pow2 1024 \<le> i then PosInf else Fin i)"
    by (rule fl_pos)
  have zpos: "0 < z" using T qpos by (simp add: z_def)
  then have "z / 2 ^ 53 \<le> z / 2" by simp
  with ierr zpos have "z / 2 \<le> i" "i \<le> 2 * z" by linarith+
  with zlo zhi have ilo: "T / 2 ^ 43 \<le> i" and ihi: "i \<le> 4 * T" by simp_all
  have inc: "fdiv (Fin T) (Fin q) = (if pow2 1024 \<le> i then PosInf else Fin i)"
    using T qpos fli by (simp add: fdiv_Fin z_def)
  show ?thesis
  proof (cases "pow2 1024 \<le> i")
    case True
    have "timer (Fin T) PosInf (Fin 0) [] = Some [Fin T]"
      by (subst timer.simps) (simp add: Let_def fadd_def)
    with True inc q show ?thesis
      by (intro exI [of _ "[]"]) (simp add: animateCounter_def T_def)
  next
    case False
    from timer_finishes [OF T_def T ilo ihi, of 0 "[]"] T
    obtain ys where "timer (Fin T) (Fin i) (Fin 0) [] = Some (ys @ [Fin T])"
      and "list_all (below target) ys"
      by auto
    with False inc q show ?thesis
      by (intro exI [of _ ys]) (simp add: animateCounter_def T_def)
  qed
qed

theorem animateCounter_reaches_target_witness:
  "(0::int) < 3 \<and> (16::rat) \<le> 48 \<and> (48::rat) \<le> 2 ^ 40
   \<and> animateCounter (Fin 3) (Fin 48) = Some [Fin 1, Fin 2, Fin 3]"
proof -
  have "animateCounter (Fin 3) (Fin 48) = Some [Fin 1, Fin 2, Fin 3]"
    by code_simp
  then show ?thesis using animateCounter_reaches_target [of 3 48] by simp
qed


text \<open>
  Two roundings.  The quotient that is the increment of target 7 in three ticks is not
  seven thirds; and an increment that is small against the running value is absorbed,
  which is why the duration is bounded above.
\<close>

lemma seven_thirds: "fdiv (Fin 7) (Fin 3) = Fin (5254199565265579 / 2251799813685248)"
  by code_simp

lemma increment_absorbed: "fadd (Fin (1 / 2 ^ 7)) (Fin (1 / 2 ^ 60)) = Fin (1 / 2 ^ 7)"
  by code_simp


section \<open>Invariants of the two canvas effects\<close>

lemma animate_frame:
  "observing (settle (animate faulty c)) = observing c"
  "cleanupRegistry (settle (animate faulty c)) = cleanupRegistry c"
  "cleanupsRun (settle (animate faulty c)) = cleanupsRun c"
  by (simp_all add: animate_def requestAnimationFrame_def Let_def)

lemma animate_single:
  assumes "single_request c" "pending (raf c) = []"
  shows "single_request (settle (animate faulty c))"
  using assms by (simp add: single_request_def animate_def requestAnimationFrame_def Let_def)

lemma entry_frame:
  "observing (settle (canvasObserver_entry faulty e c)) = observing c"
  "cleanupRegistry (settle (canvasObserver_entry faulty e c)) = cleanupRegistry c"
  "cleanupsRun (settle (canvasObserver_entry faulty e c)) = cleanupsRun c"
  by (simp_all add: canvasObserver_entry_def animate_def requestAnimationFrame_def Let_def)

lemma single_not_truthy:
  "single_request c \<Longrightarrow> \<not> truthy (animationFrameId c) \<Longrightarrow> pending (raf c) = []"
  by (auto simp: single_request_def)

lemma entry_single:
  assumes "single_request c"
  shows "single_request (settle (canvasObserver_entry faulty e c))"
proof (cases "e \<and> \<not> truthy (animationFrameId c)")
  case True
  let ?c1 = "c\<lparr>isCanvasVisible := e\<rparr>"
  have "single_request ?c1" "pending (raf ?c1) = []"
    using assms True single_not_truthy [OF assms] by (simp_all add: single_request_def)
  then have "single_request (settle (animate faulty ?c1))" by (rule animate_single)
  with True show ?thesis by (simp add: canvasObserver_entry_def Let_def)
next
  case False
  with assms show ?thesis
    by (cases "animationFrameId c")
       (auto simp: canvasObserver_entry_def Let_def single_request_def cancelAnimationFrame_def)
qed


lemma canvas_inv_settle_entry:
  assumes "canvas_inv c" "observing c"
  shows "canvas_inv (settle (canvasObserver_entry faulty e c))"
  using assms entry_single [of c faulty e]
  by (simp add: canvas_inv_def entry_frame)

lemma settle_Returned_entry:
  "canvasObserver_entry faulty e c = Returned c' \<Longrightarrow> settle (canvasObserver_entry faulty e c) = c'"
  by simp

lemma observer_inv:
  assumes "canvas_inv c" "observing c"
  shows "canvas_inv (settle (canvasObserver faulty es c))"
  using assms
proof (induction es arbitrary: c)
  case Nil
  then show ?case by simp
next
  case (Cons e es)
  have inv: "canvas_inv (settle (canvasObserver_entry faulty e c))"
    and obs: "observing (settle (canvasObserver_entry faulty e c))"
    using Cons.prems by (simp_all add: canvas_inv_settle_entry entry_frame)
  show ?case
  proof (cases "canvasObserver_entry faulty e c")
    case (Threw c')
    with inv show ?thesis by simp
  next
    case (Returned c')
    with inv obs have "canvas_inv c'" "observing c'" by simp_all
    then have "canvas_inv (settle (canvasObserver faulty es c'))" by (rule Cons.IH)
    with Returned show ?thesis by simp
  qed
qed

lemma frame_inv:
  assumes "canvas_inv c"
  shows "canvas_inv (canvas_step faulty AnimationFrame c)"
proof (cases "pending (raf c)")
  case Nil
  with assms show ?thesis by (simp add: canvas_inv_def single_request_def)
next
  case (Cons i rest)
  let ?c0 = "c\<lparr>raf := (raf c)\<lparr>pending := []\<rparr>\<rparr>"
  from assms Cons have rest: "rest = []" and reg: "DisconnectObserver \<in> set (cleanupRegistry c)"
    by (auto simp: canvas_inv_def single_request_def)
  have "single_request ?c0" "pending (raf ?c0) = []"
    using assms by (simp_all add: canvas_inv_def single_request_def)
  then have "single_request (settle (animate faulty ?c0))" by (rule animate_single)
  with reg have "canvas_inv (settle (animate faulty ?c0))"
    by (simp add: canvas_inv_def animate_frame)
  with Cons rest show ?thesis by simp
qed

lemma step_inv: "canvas_inv c \<Longrightarrow> canvas_inv (canvas_step faulty ev c)"
proof (cases ev)
  case (Intersection es)
  assume "canvas_inv c"
  with Intersection show ?thesis by (simp add: observer_inv)
next
  case AnimationFrame
  assume "canvas_inv c"
  with AnimationFrame show ?thesis using frame_inv by simp
qed simp_all

lemma run_inv: "canvas_inv c \<Longrightarrow> canvas_inv (canvas_run faulty evs c)"
  unfolding canvas_run_def by (induction evs arbitrary: c) (simp_all add: step_inv)

lemma start_inv: "canvas_inv (canvas_start faulty env)"
proof -
  have blank: "canvas_inv no_canvas"
    by (simp add: canvas_inv_def single_request_def no_canvas_def no_requests_def)
  show ?thesis
  proof (cases "canvasPresent env \<and> \<not> prefersReducedMotion env")
    case False
    with blank show ?thesis
      by (auto simp: canvas_start_def initInteractivePipelineCanvas_def)
  next
    case True
    define c3 where "c3 = no_canvas\<lparr>isCanvasVisible := True, animationFrameId := None,
        resizeListener := True, cleanupRegistry := [RemoveResizeListener],
        particles := createParticles (random env) 0
          (particleCount (isLowEndDevice (hardwareConcurrency env) (deviceMemory env))
             (isMobileDevice (innerWidth env))),
        observing := True, cleanupRegistry := [RemoveResizeListener, DisconnectObserver]\<rparr>"
    have "single_request c3" "pending (raf c3) = []"
      by (simp_all add: c3_def single_request_def no_canvas_def no_requests_def)
    then have "single_request (settle (animate faulty c3))" by (rule animate_single)
    moreover have "DisconnectObserver \<in> set (cleanupRegistry (settle (animate faulty c3)))"
      by (simp add: animate_frame c3_def)
    ultimately have inv: "canvas_inv (settle (animate faulty c3))"
      by (simp add: canvas_inv_def)
    have "canvas_start faulty env =
        (case animate faulty c3 of Threw c4 \<Rightarrow> settle (Threw c4)
         | Returned c4 \<Rightarrow> c4\<lparr>mouseMoveListener := True,
             cleanupRegistry := cleanupRegistry c4 @ [RemoveMouseMoveListener]\<rparr>)"
      using True
      by (simp add: canvas_start_def initInteractivePipelineCanvas_def Let_def c3_def no_canvas_def
          split: outcome.splits)
    with inv show ?thesis
      by (cases "animate faulty c3") (auto simp: canvas_inv_def single_request_def)
  qed
qed

lemma reachable_inv: "canvas_inv (canvas_run faulty evs (canvas_start faulty env))"
  by (simp add: run_inv start_inv)

lemma pipeline_frame_inv:
  assumes "pipeline_inv c"
  shows "pipeline_inv (pipeline_step faulty AnimationFrame c)"
proof (cases "pending (requests c)")
  case Nil
  then show ?thesis by (simp add: pipeline_inv_def)
next
  case (Cons i rest)
  with assms have "rest = []" "unloadListener c" by (auto simp: pipeline_inv_def)
  with Cons show ?thesis
    by (simp add: pipeline_inv_def pipeline_animate_def requestAnimationFrame_def Let_def)
qed

lemma pipeline_step_inv: "pipeline_inv c \<Longrightarrow> pipeline_inv (pipeline_step faulty ev c)"
proof (cases ev)
  case AnimationFrame
  assume "pipeline_inv c"
  with AnimationFrame show ?thesis using pipeline_frame_inv by simp
next
  case BeforeUnload
  assume "pipeline_inv c"
  with BeforeUnload show ?thesis
    by (cases "animationFrame c") (auto simp: pipeline_inv_def cancelAnimationFrame_def)
qed simp_all

lemma pipeline_run_inv: "pipeline_inv c \<Longrightarrow> pipeline_inv (pipeline_run faulty evs c)"
  unfolding pipeline_run_def by (induction evs arbitrary: c) (simp_all add: pipeline_step_inv)

lemma pipeline_start_inv: "pipeline_inv (pipeline_start faulty env)"
  by (simp add: pipeline_start_def initInteractivePipeline_def pipeline_animate_def
      requestAnimationFrame_def no_pipeline_def no_requests_def pipeline_inv_def Let_def)

lemma pipeline_reachable_inv: "pipeline_inv (pipeline_run faulty evs (pipeline_start faulty env))"
  by (simp add: pipeline_run_inv pipeline_start_inv)

lemma restart_is_noop:
  assumes "single_request c" "pending (raf c) \<noteq> []" "False \<notin> set es"
  shows "canvasObserver faulty es c = Returned c"
  using assms(3)
proof (induction es)
  case Nil
  show ?case by simp
next
  case (Cons e es)
  then have e: "e" and rest: "False \<notin> set es" by auto
  from assms(1,2) have "isCanvasVisible c" "truthy (animationFrameId c)"
    by (auto simp: single_request_def)
  with e have "canvasObserver_entry faulty e c = Returned c"
    by (simp add: canvasObserver_entry_def Let_def)
  with Cons.IH [OF rest] show ?case by simp
qed

text \<open>
  Claim C6.  After any sequence of events, whatever runs of the drawing code throw, at
  most one request for a frame step of the canvas effect is pending; and while one is
  pending, a delivery of the observer that reports only intersecting entries leaves the
  whole state as it is: it starts no second loop.  The particle effect, which nothing
  restarts, has at most one pending request as well.
\<close>

theorem at_most_one_frame_scheduled:
  "length (pending (raf (canvas_run faulty evs (canvas_start faulty env)))) \<le> 1
   \<and> (pending (raf (canvas_run faulty evs (canvas_start faulty env))) \<noteq> [] \<and> False \<notin> set es
        \<longrightarrow> canvas_step faulty (Intersection es) (canvas_run faulty evs (canvas_start faulty env))
            = canvas_run faulty evs (canvas_start faulty env))
   \<and> length (pending (requests (pipeline_run faulty evs (pipeline_start faulty env)))) \<le> 1"
proof -
  let ?c = "canvas_run faulty evs (canvas_start faulty env)"
  let ?p = "pipeline_run faulty evs (pipeline_start faulty env)"
  have inv: "canvas_inv ?c" by (rule reachable_inv)
  then have one: "length (pending (raf ?c)) \<le> 1"
    by (auto simp: canvas_inv_def single_request_def)
  have noop: "canvas_step faulty (Intersection es) ?c = ?c"
    if "pending (raf ?c) \<noteq> []" "False \<notin> set es"
  proof -
    from inv have "single_request ?c" by (simp add: canvas_inv_def)
    then have "canvasObserver faulty es ?c = Returned ?c"
      using that by (rule restart_is_noop)
    then show ?thesis by simp
  qed
  have "pipeline_inv ?p" by (rule pipeline_reachable_inv)
  then have "length (pending (requests ?p)) \<le> 1"
    by (auto simp: pipeline_inv_def)
  with one noop show ?thesis by blast
qed

theorem at_most_one_frame_scheduled_witness:
  "(let c = canvas_run (\<lambda>_. False) [AnimationFrame, Intersection [False], Intersection [True]]
              (canvas_start (\<lambda>_. False) desktop)
    in pending (raf c) = [3] \<and> False \<notin> set [True, True]
       \<and> canvas_step (\<lambda>_. False) (Intersection [True, True]) c = c)"
proof -
  let ?c = "canvas_run (\<lambda>_. False) [AnimationFrame, Intersection [False], Intersection [True]]
              (canvas_start (\<lambda>_. False) desktop)"
  have "pending (raf ?c) = [3]" by code_simp
  then show ?thesis
    using at_most_one_frame_scheduled [of "\<lambda>_. False"
        "[AnimationFrame, Intersection [False], Intersection [True]]" desktop "[True, True]"]
    by (simp add: Let_def)
qed

section \<open>Page unload\<close>

lemma observer_cleanupsRun:
  "cleanupsRun (settle (canvasObserver faulty es c)) = cleanupsRun c"
proof (induction es arbitrary: c)
  case Nil
  show ?case by simp
next
  case (Cons e es)
  have entry: "cleanupsRun (settle (canvasObserver_entry faulty e c)) = cleanupsRun c"
    by (rule entry_frame)
  show ?case
  proof (cases "canvasObserver_entry faulty e c")
    case (Threw c')
    with entry show ?thesis by simp
  next
    case (Returned c')
    with entry Cons.IH [of c'] show ?thesis by simp
  qed
qed

lemma frames_cleanupsRun:
  "cleanupsRun (fold (\<lambda>_ s. settle (animate faulty s)) hs c) = cleanupsRun c"
  by (induction hs arbitrary: c) (simp_all add: animate_frame)

lemma step_cleanupsRun: "cleanupsRun (canvas_step faulty ev c) = cleanupsRun c"
  by (cases ev) (simp_all add: observer_cleanupsRun frames_cleanupsRun)

text \<open>No sequence of events calls a registered cleanup closure of the canvas effect.\<close>

lemma canvas_never_runs_cleanups:
  "cleanupsRun (canvas_run faulty evs (canvas_start faulty env)) = 0"
proof -
  have "cleanupsRun (fold (canvas_step faulty) evs c) = cleanupsRun c" for c
    by (induction evs arbitrary: c) (simp_all add: step_cleanupsRun)
  moreover have "cleanupsRun (canvas_start faulty env) = 0"
    by (simp add: canvas_start_def initInteractivePipelineCanvas_def animate_def
        requestAnimationFrame_def no_canvas_def Let_def)
  ultimately show ?thesis by (simp add: canvas_run_def)
qed

lemma pipeline_after_unload:
  assumes "pipeline_inv c"
  shows "pending (requests (pipeline_step faulty BeforeUnload c)) = []"
  using assms by (cases "animationFrame c") (auto simp: pipeline_inv_def cancelAnimationFrame_def)

lemma pipeline_idle_step:
  assumes "pending (requests c) = []"
  shows "pending (requests (pipeline_step faulty ev c)) = []
         \<and> frameRuns (pipeline_step faulty ev c) = frameRuns c
         \<and> escaped (pipeline_step faulty ev c) = escaped c
         \<and> (ev \<noteq> BeforeUnload \<longrightarrow> unloads (pipeline_step faulty ev c) = unloads c)"
  using assms by (cases ev; cases "animationFrame c") (simp_all add: cancelAnimationFrame_def)

lemma pipeline_idle_run:
  assumes "pending (requests c) = []"
  shows "pending (requests (pipeline_run faulty evs c)) = []
         \<and> frameRuns (pipeline_run faulty evs c) = frameRuns c
         \<and> escaped (pipeline_run faulty evs c) = escaped c
         \<and> (BeforeUnload \<notin> set evs \<longrightarrow> unloads (pipeline_run faulty evs c) = unloads c)"
  using assms unfolding pipeline_run_def
proof (induction evs arbitrary: c)
  case Nil
  then show ?case by simp
next
  case (Cons ev evs)
  from pipeline_idle_step [OF Cons.prems, of faulty ev] Cons.IH [of "pipeline_step faulty ev c"]
  show ?case by auto
qed

text \<open>
  The particle effect of \<open>initInteractivePipeline\<close> does cancel at page unload: after its
  \<open>beforeunload\<close> listener has run, no request is pending and no frame step follows,
  whatever events come; the listener itself runs again only on another \<open>beforeunload\<close>.
\<close>

lemma pipeline_stops_after_unload:
  "(let p = pipeline_step faulty BeforeUnload (pipeline_run faulty evs (pipeline_start faulty env));
        p' = pipeline_run faulty evs' p
    in pending (requests p) = [] \<and> pending (requests p') = []
       \<and> frameRuns p' = frameRuns p
       \<and> (BeforeUnload \<notin> set evs' \<longrightarrow> unloads p' = unloads p))"
proof -
  let ?p = "pipeline_step faulty BeforeUnload (pipeline_run faulty evs (pipeline_start faulty env))"
  have idle: "pending (requests ?p) = []"
    by (intro pipeline_after_unload pipeline_reachable_inv)
  from pipeline_idle_run [OF this, of faulty evs'] idle
  show ?thesis by (simp add: Let_def)
qed

text \<open>
  Claim C8, at the input where the code departs from it.  The canvas effect of
  \<open>initInteractivePipelineCanvas\<close> is created, the page is unloaded, and two animation
  frames come.  The unload calls none of the three registered closures: the observer
  still observes, both listeners are attached, and the two frames run the drawing code
  twice more and leave a request pending.
\<close>

theorem canvas_runs_after_unload:
  "(let c = canvas_run (\<lambda>_. False) [BeforeUnload, AnimationFrame, AnimationFrame]
              (canvas_start (\<lambda>_. False) desktop)
    in frameSteps c = 3 \<and> pending (raf c) = [3] \<and> cleanupsRun c = 0
       \<and> observing c \<and> resizeListener c \<and> mouseMoveListener c
       \<and> cleanupRegistry c = [RemoveResizeListener, DisconnectObserver, RemoveMouseMoveListener])"
  unfolding Let_def by (intro conjI; code_simp)


section \<open>An exception of the drawing code\<close>

lemma stalled_entries:
  assumes "stalled c" "False \<notin> set es"
  shows "canvasObserver faulty es c = Returned c"
  using assms(2)
proof (induction es)
  case Nil
  show ?case by simp
next
  case (Cons e es)
  then have e: "e" and rest: "False \<notin> set es" by auto
  from assms(1) e have "canvasObserver_entry faulty e c = Returned c"
    by (simp add: canvasObserver_entry_def Let_def stalled_def)
  with Cons.IH [OF rest] show ?case by simp
qed

lemma stalled_step:
  assumes "stalled c" "no_exit ev"
  shows "stalled (canvas_step faulty ev c) \<and> frameSteps (canvas_step faulty ev c) = frameSteps c
         \<and> uncaught (canvas_step faulty ev c) = uncaught c"
proof (cases ev)
  case (Intersection es)
  with assms(2) have "False \<notin> set es" by (simp add: no_exit_def)
  with assms(1) have "canvasObserver faulty es c = Returned c" by (rule stalled_entries)
  with Intersection assms(1) show ?thesis by simp
next
  case AnimationFrame
  with assms(1) show ?thesis by (simp add: stalled_def)
qed (use assms(1) in simp_all)

lemma stalled_run:
  assumes "stalled c" "list_all no_exit evs"
  shows "stalled (canvas_run faulty evs c) \<and> frameSteps (canvas_run faulty evs c) = frameSteps c
         \<and> uncaught (canvas_run faulty evs c) = uncaught c"
  using assms unfolding canvas_run_def
proof (induction evs arbitrary: c)
  case Nil
  then show ?case by simp
next
  case (Cons ev evs)
  then have "no_exit ev" "list_all no_exit evs" by simp_all
  from stalled_step [OF Cons.prems(1) this(1), of faulty] Cons.IH [OF _ this(2), of "canvas_step faulty ev c"]
  show ?case by simp
qed

lemma throwing_frame:
  assumes "canvas_inv c" "pending (raf c) \<noteq> []" "faulty (frameSteps c + 1)"
  shows "stalled (canvas_step faulty AnimationFrame c)
         \<and> frameSteps (canvas_step faulty AnimationFrame c) = frameSteps c + 1
         \<and> uncaught (canvas_step faulty AnimationFrame c) = uncaught c + 1"
proof -
  from assms(1,2) obtain i where "pending (raf c) = [i]" "isCanvasVisible c"
    "truthy (animationFrameId c)"
    by (cases "pending (raf c)") (auto simp: canvas_inv_def single_request_def)
  with assms(3) show ?thesis
    by (simp add: animate_def stalled_def)
qed

lemma pipeline_throwing_frame:
  assumes "pipeline_inv p" "pending (requests p) \<noteq> []" "faulty (frameRuns p + 1)"
  shows "pending (requests (pipeline_step faulty AnimationFrame p)) = []
         \<and> frameRuns (pipeline_step faulty AnimationFrame p) = frameRuns p + 1
         \<and> escaped (pipeline_step faulty AnimationFrame p) = escaped p + 1"
proof -
  from assms(1,2) obtain i where "pending (requests p) = [i]"
    by (cases "pending (requests p)") (auto simp: pipeline_inv_def)
  with assms(3) show ?thesis
    by (simp add: pipeline_animate_def)
qed

text \<open>
  Claim C5, as amended.  When the drawing code throws in a frame step that the browser
  runs for a pending request, the exception leaves the callback (\<open>animate\<close> has no
  handler and logs nothing; the count of uncaught exceptions grows by one), the step
  requests no further frame, and no request is pending.  For the canvas effect no frame
  step follows as long as the observer reports no entry that is not intersecting; for
  the particle effect, which has no observer, no frame step follows at all.
\<close>

theorem throwing_frame_is_not_rescheduled:
  "(let c = canvas_run faulty evs (canvas_start faulty env);
        c' = canvas_step faulty AnimationFrame c;
        c'' = canvas_run faulty evs' c'
    in pending (raf c) \<noteq> [] \<and> faulty (frameSteps c + 1) \<and> list_all no_exit evs' \<longrightarrow>
         frameSteps c' = frameSteps c + 1 \<and> uncaught c' = uncaught c + 1 \<and> pending (raf c') = []
         \<and> frameSteps c'' = frameSteps c' \<and> uncaught c'' = uncaught c' \<and> pending (raf c'') = [])
   \<and> (let p = pipeline_run faulty evs (pipeline_start faulty env);
          p' = pipeline_step faulty AnimationFrame p;
          p'' = pipeline_run faulty evs' p'
      in pending (requests p) \<noteq> [] \<and> faulty (frameRuns p + 1) \<longrightarrow>
           frameRuns p' = frameRuns p + 1 \<and> escaped p' = escaped p + 1 \<and> pending (requests p') = []
           \<and> frameRuns p'' = frameRuns p' \<and> escaped p'' = escaped p' \<and> pending (requests p'') = [])"
proof -
  let ?c = "canvas_run faulty evs (canvas_start faulty env)"
  let ?c' = "canvas_step faulty AnimationFrame ?c"
  let ?p = "pipeline_run faulty evs (pipeline_start faulty env)"
  let ?p' = "pipeline_step faulty AnimationFrame ?p"
  have canvas: "frameSteps ?c' = frameSteps ?c + 1 \<and> uncaught ?c' = uncaught ?c + 1
      \<and> pending (raf ?c') = []
      \<and> frameSteps (canvas_run faulty evs' ?c') = frameSteps ?c'
      \<and> uncaught (canvas_run faulty evs' ?c') = uncaught ?c'
      \<and> pending (raf (canvas_run faulty evs' ?c')) = []"
    if "pending (raf ?c) \<noteq> []" "faulty (frameSteps ?c + 1)" "list_all no_exit evs'"
  proof -
    from throwing_frame [of ?c faulty, OF reachable_inv that(1,2)]
    have st: "stalled ?c'" and n: "frameSteps ?c' = frameSteps ?c + 1"
      and u: "uncaught ?c' = uncaught ?c + 1"
      by simp_all
    from stalled_run [OF st that(3), of faulty] st n u show ?thesis
      by (simp add: stalled_def)
  qed
  have pipe: "frameRuns ?p' = frameRuns ?p + 1 \<and> escaped ?p' = escaped ?p + 1
      \<and> pending (requests ?p') = []
      \<and> frameRuns (pipeline_run faulty evs' ?p') = frameRuns ?p'
      \<and> escaped (pipeline_run faulty evs' ?p') = escaped ?p'
      \<and> pending (requests (pipeline_run faulty evs' ?p')) = []"
    if "pending (requests ?p) \<noteq> []" "faulty (frameRuns ?p + 1)"
  proof -
    from pipeline_throwing_frame [of ?p faulty, OF pipeline_reachable_inv that]
    have idle: "pending (requests ?p') = []" and rest: "frameRuns ?p' = frameRuns ?p + 1"
        "escaped ?p' = escaped ?p + 1"
      by simp_all
    from pipeline_idle_run [OF idle, of faulty evs'] idle rest show ?thesis by simp
  qed
  from canvas pipe show ?thesis unfolding Let_def by blast
qed

text \<open>
  The fifth run of the drawing code throws in the fourth animation frame after the
  start.  The observer then reports the canvas as not intersecting and as intersecting
  again: the second report calls \<open>animate\<close>, the drawing code runs a sixth time and a
  new request is pending.
\<close>

theorem sixth_frame_counterexample:
  "(let c5 = canvas_run fifth [AnimationFrame, AnimationFrame, AnimationFrame, AnimationFrame]
               (canvas_start fifth desktop);
        c6 = canvas_run fifth [Intersection [False], Intersection [True]] c5
    in frameSteps c5 = 5 \<and> uncaught c5 = 1 \<and> pending (raf c5) = []
       \<and> frameSteps c6 = 6 \<and> pending (raf c6) = [5])"
  unfolding Let_def by (intro conjI; code_simp)

theorem throwing_frame_is_not_rescheduled_witness:
  "(let c = canvas_run fifth [AnimationFrame, AnimationFrame, AnimationFrame] (canvas_start fifth desktop);
        c'' = canvas_run fifth [Intersection [True], AnimationFrame, Resize]
                (canvas_step fifth AnimationFrame c)
    in pending (raf c) = [4] \<and> fifth (frameSteps c + 1)
       \<and> list_all no_exit [Intersection [True], AnimationFrame, Resize]
       \<and> frameSteps c'' = 5 \<and> uncaught c'' = 1 \<and> pending (raf c'') = [])
   \<and> (let p = pipeline_run fifth [AnimationFrame, AnimationFrame, AnimationFrame] (pipeline_start fifth desktop);
          p'' = pipeline_run fifth [Intersection [True], AnimationFrame, Resize]
                  (pipeline_step fifth AnimationFrame p)
      in pending (requests p) = [4] \<and> fifth (frameRuns p + 1)
         \<and> frameRuns p'' = 5 \<and> escaped p'' = 1 \<and> pending (requests p'') = [])"
proof -
  let ?evs = "[AnimationFrame, AnimationFrame, AnimationFrame]"
  let ?evs' = "[Intersection [True], AnimationFrame, Resize]"
  let ?c = "canvas_run fifth ?evs (canvas_start fifth desktop)"
  let ?p = "pipeline_run fifth ?evs (pipeline_start fifth desktop)"
  have c1: "pending (raf ?c) = [4]" by code_simp
  have c2: "frameSteps ?c = 4" by code_simp
  have c3: "uncaught ?c = 0" by code_simp
  have c4: "list_all no_exit ?evs'" by (simp add: no_exit_def)
  have p1: "pending (requests ?p) = [4]" by code_simp
  have p2: "frameRuns ?p = 4" by code_simp
  have p3: "escaped ?p = 0" by code_simp
  have f: "fifth 5" by (simp add: fifth_def)
  show ?thesis
    using throwing_frame_is_not_rescheduled [of fifth ?evs desktop ?evs'] c1 c2 c3 c4 p1 p2 p3 f
    by (simp add: Let_def)
qed

section \<open>Visibility and reduced motion in the particle effect\<close>

text \<open>
  Claim C1, at the input where the code departs from it.  The particle effect of
  \<open>initInteractivePipeline\<close> has no observer: after the canvas has been reported as not
  intersecting, two animation frames run its drawing code twice more and a request is
  pending again, so the effect is running while its target is not intersecting.
\<close>

theorem pipeline_runs_while_not_intersecting:
  "(let p = pipeline_run (\<lambda>_. False) [Intersection [False], AnimationFrame, AnimationFrame]
              (pipeline_start (\<lambda>_. False) desktop)
    in pending (requests p) = [3] \<and> frameRuns p = 3)"
  unfolding Let_def by (intro conjI; code_simp)

text \<open>
  Claim C2, at the input where the code departs from it.  With reduced motion preferred
  when the effects are created, \<open>initInteractivePipeline\<close> still runs its drawing code
  and requests a frame, and goes on with every animation frame.
\<close>

theorem pipeline_runs_with_reduced_motion:
  "(let p = pipeline_start (\<lambda>_. False) (desktop\<lparr>prefersReducedMotion := True\<rparr>);
        p' = pipeline_run (\<lambda>_. False) [AnimationFrame, Intersection [True], AnimationFrame] p
    in pending (requests p) = [1] \<and> frameRuns p = 1 \<and> pending (requests p') = [3] \<and> frameRuns p' = 3)"
  unfolding Let_def by (intro conjI; code_simp)

text \<open>
  The canvas effect of \<open>initInteractivePipelineCanvas\<close>, for comparison, never starts
  when reduced motion is preferred at its creation.
\<close>

lemma canvas_never_starts_with_reduced_motion:
  assumes "prefersReducedMotion env"
  shows "canvas_run faulty evs (canvas_start faulty env) = no_canvas"
proof -
  have step: "canvas_step faulty ev no_canvas = no_canvas" for ev
    by (cases ev) (simp_all add: no_canvas_def no_requests_def)
  have "fold (canvas_step faulty) evs no_canvas = no_canvas"
    by (induction evs) (simp_all add: step)
  with assms show ?thesis
    by (simp add: canvas_run_def canvas_start_def initInteractivePipelineCanvas_def)
qed

section \<open>Properties of the one-shot effects\<close>

lemma checkMetrics_once:
  "metricsFired (checkMetrics l c) = (if animated c then metricsFired c
      else if in_view l then metricsFired c + 1 else metricsFired c)"
  "animated (checkMetrics l c) = (animated c \<or> in_view l)"
  by (auto simp: checkMetrics_def in_view_def Let_def)

lemma metrics_run_count:
  "metricsFired (metrics_run ls c) =
     (if \<not> animated c \<and> list_ex in_view ls then metricsFired c + 1 else metricsFired c)
   \<and> animated (metrics_run ls c) = (animated c \<or> list_ex in_view ls)"
  unfolding metrics_run_def
  by (induction ls arbitrary: c) (auto simp: checkMetrics_once)

text \<open>
  The metric counters fire once if a check finds the section in view, and never
  otherwise; the flag \<open>animated\<close> stops every later check.
\<close>

lemma metric_counters_fire_once:
  "metricsFired (metrics_run ls (initMetricCounters l)) = (if list_ex in_view (l # ls) then 1 else 0)"
  using metrics_run_count [of ls "initMetricCounters l"]
  by (auto simp: initMetricCounters_def checkMetrics_once)

lemma checkImpact_once:
  "impactFired (checkImpact l c) = (if impactAnimated c then impactFired c
      else if in_view l then impactFired c + 1 else impactFired c)"
  "impactAnimated (checkImpact l c) = (impactAnimated c \<or> in_view l)"
  by (auto simp: checkImpact_def in_view_def Let_def)

lemma impact_run_count:
  "impactFired (impact_run ls c) =
     (if \<not> impactAnimated c \<and> list_ex in_view ls then impactFired c + 1 else impactFired c)
   \<and> impactAnimated (impact_run ls c) = (impactAnimated c \<or> list_ex in_view ls)"
  unfolding impact_run_def
  by (induction ls arbitrary: c) (auto simp: checkImpact_once)

lemma impact_counters_fire_once:
  "impactFired (impact_run ls (initImpactCounters l)) = (if list_ex in_view (l # ls) then 1 else 0)"
  using impact_run_count [of ls "initImpactCounters l"]
  by (auto simp: initImpactCounters_def checkImpact_once)

lemma radar_entries_count:
  "chartFired (fold radar_entry es r) = chartFired r + length (filter (\<lambda>e. e) es)"
  by (induction es arbitrary: r) (simp_all add: radar_entry_def)

text \<open>
  Claim C4, at the input where the code departs from it.  One delivery of the observer
  of the radar chart holds three entries for the container: intersecting, not
  intersecting, intersecting.  The block that draws and animates the chart runs for the
  first and for the third entry, twice in all; the \<open>disconnect()\<close> of the first run does
  not end the loop over the entries.
\<close>

theorem radar_fires_twice:
  "chartFired (radar_run [Intersection [True, False, True]] (initSkillRadarChart True no_radar)) = 2
   \<and> \<not> chartObserving (radar_run [Intersection [True, False, True]] (initSkillRadarChart True no_radar))"
  by (simp add: radar_run_def initSkillRadarChart_def no_radar_def radar_entry_def)

section \<open>Properties of the cleanup registry\<close>

lemma filter_removeAll:
  "filter (\<lambda>k. k \<notin> set ls) (removeAll l xs) = filter (\<lambda>k. k \<notin> set (l # ls)) xs"
  by (induction xs) auto

lemma forEach_removals:
  "forEach (map removal ls) d =
     Returned (d\<lparr>attached := filter (\<lambda>l. l \<notin> set ls) (attached d),
                 removeCalls := removeCalls d @ ls\<rparr>)"
proof (induction ls arbitrary: d)
  case Nil
  show ?case by simp
next
  case (Cons l ls)
  have "removal l d = Returned (d\<lparr>attached := removeAll l (attached d),
      removeCalls := removeCalls d @ [l]\<rparr>)"
    by (simp add: removal_def eventTarget_def)
  then show ?case using Cons.IH filter_removeAll [of ls l "attached d"] by simp
qed

lemma forEach_append:
  "forEach (fs @ gs) w = (case forEach fs w of Threw w' \<Rightarrow> Threw w' | Returned w' \<Rightarrow> forEach gs w')"
  by (induction fs arbitrary: w) (simp_all split: outcome.splits)


text \<open>
  Claim C3, as amended.  \<open>add\<close> attaches the listener and appends the closure that
  removes it, so the array holds the closures in the order of registration.  \<open>cleanup\<close>
  on closures that return calls \<open>removeEventListener\<close> once for each, in that order,
  detaches the listeners and empties the array, after which a second \<open>cleanup\<close> does
  nothing.  A closure that throws ends \<open>cleanup\<close> with its exception: the closures
  before it have run once, those after it have not run, and the array is left as it was.
\<close>

theorem cleanup_runs_removals_in_order:
  "add (eventTarget n) e h (cs, d) =
     Returned (cs @ [removal (n, e, h)],
       d\<lparr>attached := (if (n, e, h) \<in> set (attached d) then attached d
                       else attached d @ [(n, e, h)])\<rparr>)
   \<and> cleanup (map removal ls, d) =
       Returned ([], d\<lparr>attached := filter (\<lambda>l. l \<notin> set ls) (attached d),
                       removeCalls := removeCalls d @ ls\<rparr>)
   \<and> cleanup ([], d) = Returned ([], d)
   \<and> cleanup (map removal ls @ broken_removal l # rest, d) =
       Threw (map removal ls @ broken_removal l # rest,
         d\<lparr>attached := filter (\<lambda>l. l \<notin> set ls) (attached d),
            removeCalls := removeCalls d @ ls @ [l]\<rparr>)"
proof -
  have a: "add (eventTarget n) e h (cs, d) =
     Returned (cs @ [removal (n, e, h)],
       d\<lparr>attached := (if (n, e, h) \<in> set (attached d) then attached d
                       else attached d @ [(n, e, h)])\<rparr>)"
    by (simp add: add_def removal_def eventTarget_def)
  have b: "cleanup (map removal ls, d) =
       Returned ([], d\<lparr>attached := filter (\<lambda>l. l \<notin> set ls) (attached d),
                       removeCalls := removeCalls d @ ls\<rparr>)"
    by (simp add: cleanup_def forEach_removals)
  have c: "cleanup ([], d) = Returned ([], d)"
    by (simp add: cleanup_def)
  have "broken_removal l d' = Threw (d'\<lparr>removeCalls := removeCalls d' @ [l]\<rparr>)" for d'
    by (simp add: broken_removal_def brokenTarget_def)
  then have "forEach (map removal ls @ broken_removal l # rest) d =
      Threw (d\<lparr>attached := filter (\<lambda>l. l \<notin> set ls) (attached d),
               removeCalls := removeCalls d @ ls @ [l]\<rparr>)"
    by (simp add: forEach_append forEach_removals)
  then have d: "cleanup (map removal ls @ broken_removal l # rest, d) =
       Threw (map removal ls @ broken_removal l # rest,
         d\<lparr>attached := filter (\<lambda>l. l \<notin> set ls) (attached d),
            removeCalls := removeCalls d @ ls @ [l]\<rparr>)"
    by (simp add: cleanup_def)
  from a b c d show ?thesis by blast
qed

text \<open>
  Three registered removals, the second of which throws: \<open>cleanup\<close> ends with the
  exception, the third listener is never removed, and the array still holds the three
  closures, so that a second \<open>cleanup\<close> calls the first removal a second time.
\<close>

theorem cleanup_failure_counterexample:
  "(let r0 = ([removal resize_listener, broken_removal scroll_listener, removal mousemove_listener],
              \<lparr>attached = [resize_listener, scroll_listener, mousemove_listener], removeCalls = []\<rparr>);
        r1 = cleanup r0;
        r2 = cleanup (state_of r1)
    in threw r1
       \<and> removeCalls (snd (state_of r1)) = [resize_listener, scroll_listener]
       \<and> attached (snd (state_of r1)) = [scroll_listener, mousemove_listener]
       \<and> length (fst (state_of r1)) = 3
       \<and> removeCalls (snd (state_of r2))
           = [resize_listener, scroll_listener, resize_listener, scroll_listener])"
  by (simp add: Let_def cleanup_def removal_def broken_removal_def eventTarget_def brokenTarget_def
      resize_listener_def scroll_listener_def mousemove_listener_def)

end
